theory Spec2Isabelle
  imports Main "HOL-Library.Sublist"
begin

section \<open>The hosts utility (hosts.go)\<close>

text \<open>
  The program reads a hosts file into a slice of \<^verbatim>\<open>interface{}\<close> values, runs one
  command on the slice and renders the slice back to text. Go strings are byte
  sequences, so a string is a \<^typ>\<open>string\<close> (a list of 8-bit characters).
\<close>

subsection \<open>Functions of Go's strings package\<close>

text \<open>
  \<^verbatim>\<open>strings.TrimSpace\<close> and \<^verbatim>\<open>strings.Fields\<close> treat as white space the code points
  for which \<^verbatim>\<open>unicode.IsSpace\<close> holds: the six ASCII characters tab, line feed,
  vertical tab, form feed, carriage return and space, and U+0085, U+00A0, U+1680,
  U+2000 to U+200A, U+2028, U+2029, U+202F, U+205F, U+3000. The non-ASCII ones are
  listed here by their UTF-8 encodings. Each encoding starts with a lead byte and
  continues with continuation bytes only, and the decoder never consumes a lead byte
  as part of another code point, so a white space code point stands at a byte position
  exactly when one of these byte sequences starts there.
\<close>

definition asciiSpace :: "char \<Rightarrow> bool" where
  "asciiSpace c \<longleftrightarrow>
     c = CHR 0x09 \<or> c = CHR 0x0A \<or> c = CHR 0x0B \<or> c = CHR 0x0C \<or> c = CHR 0x0D \<or> c = CHR 0x20"

definition unicodeSpaces :: "string list" where
  "unicodeSpaces =
    [[CHR 0xC2, CHR 0x85], [CHR 0xC2, CHR 0xA0],
     [CHR 0xE1, CHR 0x9A, CHR 0x80],
     [CHR 0xE2, CHR 0x80, CHR 0x80], [CHR 0xE2, CHR 0x80, CHR 0x81],
     [CHR 0xE2, CHR 0x80, CHR 0x82], [CHR 0xE2, CHR 0x80, CHR 0x83],
     [CHR 0xE2, CHR 0x80, CHR 0x84], [CHR 0xE2, CHR 0x80, CHR 0x85],
     [CHR 0xE2, CHR 0x80, CHR 0x86], [CHR 0xE2, CHR 0x80, CHR 0x87],
     [CHR 0xE2, CHR 0x80, CHR 0x88], [CHR 0xE2, CHR 0x80, CHR 0x89],
     [CHR 0xE2, CHR 0x80, CHR 0x8A],
     [CHR 0xE2, CHR 0x80, CHR 0xA8], [CHR 0xE2, CHR 0x80, CHR 0xA9],
     [CHR 0xE2, CHR 0x80, CHR 0xAF],
     [CHR 0xE2, CHR 0x81, CHR 0x9F],
     [CHR 0xE3, CHR 0x80, CHR 0x80]]"

text \<open>
  \<open>spaceWidth s\<close> is the number of bytes of the white space code point that \<open>s\<close>
  starts with, and 0 when \<open>s\<close> does not start with white space.
\<close>

definition spaceWidth :: "string \<Rightarrow> nat" where
  "spaceWidth s =
     (case s of
        [] \<Rightarrow> 0
      | c # _ \<Rightarrow>
          if asciiSpace c then 1
          else (case find (\<lambda>p. prefix p s) unicodeSpaces of
                  Some p \<Rightarrow> length p
                | None \<Rightarrow> 0))"

text \<open>
  \<open>lastSpaceWidth s\<close> is the number of bytes of the white space code point that \<open>s\<close>
  ends with (0 when there is none): the code point that ends a string starts one,
  two or three bytes before its end.
\<close>

definition lastSpaceWidth :: "string \<Rightarrow> nat" where
  "lastSpaceWidth s =
     (let n = length s in
      if 1 \<le> n \<and> spaceWidth (drop (n - 1) s) = 1 then 1
      else if 2 \<le> n \<and> spaceWidth (drop (n - 2) s) = 2 then 2
      else if 3 \<le> n \<and> spaceWidth (drop (n - 3) s) = 3 then 3
      else 0)"

lemma spaceWidth_Nil [simp]: "spaceWidth [] = 0"
  by (simp add: spaceWidth_def)

lemma spaceWidth_le: "spaceWidth s \<le> length s"
proof (cases s)
  case Nil
  then show ?thesis by simp
next
  case (Cons c t)
  show ?thesis
  proof (cases "find (\<lambda>p. prefix p s) unicodeSpaces")
    case None
    with Cons show ?thesis by (simp add: spaceWidth_def)
  next
    case (Some p)
    then have "prefix p s" by (auto simp: find_Some_iff)
    then have "length p \<le> length s" by (rule prefix_length_le)
    with Some Cons show ?thesis by (auto simp: spaceWidth_def)
  qed
qed

lemma lastSpaceWidth_le: "lastSpaceWidth s \<le> length s"
  by (simp add: lastSpaceWidth_def Let_def)

text \<open>\<^verbatim>\<open>strings.TrimSpace\<close>: leading white space is cut, then trailing white space.\<close>

function trimLeft :: "string \<Rightarrow> string" where
  "trimLeft s = (if spaceWidth s = 0 then s else trimLeft (drop (spaceWidth s) s))"
  by pat_completeness auto
termination
proof (relation "measure length")
  show "wf (measure length)" by simp
next
  fix s :: string
  assume "spaceWidth s \<noteq> 0"
  moreover have "spaceWidth s \<le> length s" by (rule spaceWidth_le)
  ultimately show "(drop (spaceWidth s) s, s) \<in> measure length" by simp
qed

function trimRight :: "string \<Rightarrow> string" where
  "trimRight s =
     (if lastSpaceWidth s = 0 then s else trimRight (take (length s - lastSpaceWidth s) s))"
  by pat_completeness auto
termination
proof (relation "measure length")
  show "wf (measure length)" by simp
next
  fix s :: string
  assume "lastSpaceWidth s \<noteq> 0"
  moreover have "lastSpaceWidth s \<le> length s" by (rule lastSpaceWidth_le)
  ultimately show "(take (length s - lastSpaceWidth s) s, s) \<in> measure length" by simp
qed

declare trimLeft.simps [simp del] trimRight.simps [simp del]

definition TrimSpace :: "string \<Rightarrow> string" where
  "TrimSpace s = trimRight (trimLeft s)"

text \<open>
  \<^verbatim>\<open>strings.Fields\<close>: the maximal runs of bytes between white space. \<open>cur\<close> is the
  field being read (empty between fields).
\<close>

function Fields_loop :: "string \<Rightarrow> string \<Rightarrow> string list" where
  "Fields_loop cur s =
     (if s = [] then (if cur = [] then [] else [cur])
      else if spaceWidth s \<noteq> 0 then
        (if cur = [] then Fields_loop [] (drop (spaceWidth s) s)
         else cur # Fields_loop [] (drop (spaceWidth s) s))
      else Fields_loop (cur @ [hd s]) (tl s))"
  by pat_completeness auto
termination
proof (relation "measure (\<lambda>(cur, s). length s)")
  show "wf (measure (\<lambda>(cur, s). length s))" by simp
next
  fix cur s :: string
  assume "s \<noteq> []" "spaceWidth s \<noteq> 0"
  then show "(([], drop (spaceWidth s) s), (cur, s)) \<in> measure (\<lambda>(cur, s). length s)"
    by simp
next
  fix cur s :: string
  assume "s \<noteq> []" "spaceWidth s \<noteq> 0"
  then show "(([], drop (spaceWidth s) s), (cur, s)) \<in> measure (\<lambda>(cur, s). length s)"
    by simp
next
  fix cur s :: string
  assume "s \<noteq> []"
  then show "((cur @ [hd s], tl s), (cur, s)) \<in> measure (\<lambda>(cur, s). length s)"
    by simp
qed

declare Fields_loop.simps [simp del]

definition Fields :: "string \<Rightarrow> string list" where
  "Fields s = Fields_loop [] s"

text \<open>\<^verbatim>\<open>strings.Split(s, "\n")\<close>: the pieces of \<open>s\<close> between line feeds.\<close>

fun Split_loop :: "string \<Rightarrow> string \<Rightarrow> string list" where
  "Split_loop cur [] = [cur]"
| "Split_loop cur (c # s) =
     (if c = CHR 0x0A then cur # Split_loop [] s else Split_loop (cur @ [c]) s)"

definition Split_lines :: "string \<Rightarrow> string list" where
  "Split_lines s = Split_loop [] s"

text \<open>\<^verbatim>\<open>strings.Join(elems, sep)\<close> and \<^verbatim>\<open>strings.HasPrefix(s, "#")\<close>.\<close>

fun Join :: "string list \<Rightarrow> string \<Rightarrow> string" where
  "Join [] sep = []"
| "Join [x] sep = x"
| "Join (x # y # ys) sep = x @ sep @ Join (y # ys) sep"

definition HasPrefix_hash :: "string \<Rightarrow> bool" where
  "HasPrefix_hash s = (case s of [] \<Rightarrow> False | c # _ \<Rightarrow> c = CHR 0x23)"

subsection \<open>The slice of interface values\<close>

text \<open>
  \<^verbatim>\<open>type Host struct { IP string; Hostnames []string }\<close>. The slice \<^verbatim>\<open>hosts\<close> has
  elements of type \<^verbatim>\<open>interface{}\<close>: \<^verbatim>\<open>ReadHosts\<close> stores strings and \<^verbatim>\<open>Host\<close> values
  in it, and \<^verbatim>\<open>cmdRemoveIP\<close> stores a slice of interface values (see there).
\<close>

record Host =
  IP :: string
  Hostnames :: "string list"

datatype iface = IString string | IHost Host | ISlice "iface list"

text \<open>The run-time panics of an index or slice expression out of range.\<close>

datatype panic = IndexOutOfRange | SliceBoundsOutOfRange

subsection \<open>ReadHosts and RenderHosts\<close>

text \<open>
  \<^verbatim>\<open>ReadHosts\<close> takes what \<^verbatim>\<open>ioutil.ReadFile\<close> returned: \<open>None\<close> is a read error, on
  which \<^verbatim>\<open>log.Fatal\<close> ends the process (the result \<open>None\<close>). The loop appends one
  value to \<^verbatim>\<open>*hosts\<close> for every row.
\<close>

fun ReadHosts_loop :: "iface list \<Rightarrow> string list \<Rightarrow> iface list" where
  "ReadHosts_loop hosts [] = hosts"
| "ReadHosts_loop hosts (row # rows) =
     (let row = TrimSpace row in
      if HasPrefix_hash row \<or> row = [] then ReadHosts_loop (hosts @ [IString row]) rows
      else
        (let fields = Fields row in
         if length fields < 2 then ReadHosts_loop (hosts @ [IString row]) rows
         else ReadHosts_loop
                (hosts @ [IHost \<lparr>IP = fields ! 0, Hostnames = drop 1 fields\<rparr>]) rows))"

definition ReadHosts :: "string option \<Rightarrow> iface list option" where
  "ReadHosts file =
     (case file of
        None \<Rightarrow> None
      | Some contents \<Rightarrow> Some (ReadHosts_loop [] (Split_lines contents)))"

text \<open>
  \<^verbatim>\<open>RenderHosts\<close>: the type switch has a case for a string and a case for a \<^verbatim>\<open>Host\<close>;
  a value of any other type writes nothing to the buffer. \<^verbatim>\<open>WriteHosts\<close> writes the
  text \<^verbatim>\<open>RenderHosts\<close> returns to the file (or prints it, with the debug flag).
\<close>

fun RenderHosts_loop :: "string \<Rightarrow> iface list \<Rightarrow> string" where
  "RenderHosts_loop buf [] = buf"
| "RenderHosts_loop buf (host # hosts) =
     (case host of
        IString v \<Rightarrow> RenderHosts_loop (buf @ v) hosts
      | IHost v \<Rightarrow>
          (let hostnames = Join (Hostnames v) [CHR 0x20];
               row = IP v @ [CHR 0x09] @ hostnames @ [CHR 0x0A]
           in RenderHosts_loop (buf @ row) hosts)
      | ISlice _ \<Rightarrow> RenderHosts_loop buf hosts)"

definition RenderHosts :: "iface list \<Rightarrow> string" where
  "RenderHosts hosts = RenderHosts_loop [] hosts"

subsection \<open>uniqueStrings and removeHostname\<close>

text \<open>
  \<^verbatim>\<open>uniqueStrings\<close> works in place: \<open>i\<close> is the index of the range loop, which reads
  \<^verbatim>\<open>s[i]\<close> from the array as it is at that iteration, and \<open>j\<close> the index it writes.
  The write \<^verbatim>\<open>s[j] = v\<close> and the slice expression \<^verbatim>\<open>s[:j]\<close> panic out of range
  (\<open>uniqueStrings_eq\<close> below shows that they never do).
\<close>

function uniqueStrings_loop ::
  "(string \<rightharpoonup> unit) \<Rightarrow> nat \<Rightarrow> nat \<Rightarrow> string list \<Rightarrow> panic + string list" where
  "uniqueStrings_loop seen j i s =
     (if i < length s then
        (let v = s ! i in
         if seen v \<noteq> None then uniqueStrings_loop seen j (i + 1) s
         else if j < length s then
           uniqueStrings_loop (seen(v \<mapsto> ())) (j + 1) (i + 1) (s[j := v])
         else Inl IndexOutOfRange)
      else if j \<le> length s then Inr (take j s)
      else Inl SliceBoundsOutOfRange)"
  by pat_completeness auto
termination
  by (relation "measure (\<lambda>(seen, j, i, s). length s - i)") auto

declare uniqueStrings_loop.simps [simp del]

definition uniqueStrings :: "string list \<Rightarrow> panic + string list" where
  "uniqueStrings s = uniqueStrings_loop Map.empty 0 0 s"

text \<open>
  \<^verbatim>\<open>removeHostname\<close>: the loop leaves in \<^verbatim>\<open>removeIndex\<close> the last index at which the
  name stands, or -1.
\<close>

fun removeIndex_loop :: "int \<Rightarrow> nat \<Rightarrow> string list \<Rightarrow> string \<Rightarrow> int" where
  "removeIndex_loop removeIndex i [] remove = removeIndex"
| "removeIndex_loop removeIndex i (hostname # rest) remove =
     removeIndex_loop (if hostname = remove then int i else removeIndex) (i + 1) rest remove"

definition removeHostname :: "string list \<Rightarrow> string \<Rightarrow> string list" where
  "removeHostname hostnames remove =
     (let removeIndex = removeIndex_loop (- 1) 0 hostnames remove in
      if removeIndex \<noteq> - 1 then
        take (nat removeIndex) hostnames @ drop (nat removeIndex + 1) hostnames
      else hostnames)"

subsection \<open>The commands\<close>

text \<open>
  Each command is modelled from the value \<^verbatim>\<open>ReadHosts\<close> left in \<^verbatim>\<open>hosts\<close> to the
  value handed to \<^verbatim>\<open>WriteHosts\<close> (for \<^verbatim>\<open>resolve\<close>: to the text printed). The
  arguments are those cobra passes: \<^verbatim>\<open>add\<close> has an ip and at least one hostname,
  \<^verbatim>\<open>rmip\<close> and \<^verbatim>\<open>resolve\<close> have one argument, \<^verbatim>\<open>rmhost\<close> at least one.
\<close>

function addHost_loop ::
  "nat \<Rightarrow> string \<Rightarrow> string list \<Rightarrow> iface list \<Rightarrow> panic + (iface list \<times> bool)" where
  "addHost_loop i ip hostnames hosts =
     (if i < length hosts then
        (case hosts ! i of
           IHost host \<Rightarrow>
             if IP host = ip then
               (case uniqueStrings (Hostnames host @ hostnames) of
                  Inl p \<Rightarrow> Inl p
                | Inr u \<Rightarrow> Inr (hosts[i := IHost (host\<lparr>Hostnames := u\<rparr>)], True))
             else addHost_loop (i + 1) ip hostnames hosts
         | _ \<Rightarrow> addHost_loop (i + 1) ip hostnames hosts)
      else Inr (hosts, False))"
  by pat_completeness auto
termination
  by (relation "measure (\<lambda>(i, ip, hostnames, hosts). length hosts - i)") auto

declare addHost_loop.simps [simp del]

definition cmdAddHost :: "iface list \<Rightarrow> string \<Rightarrow> string list \<Rightarrow> panic + iface list" where
  "cmdAddHost hosts ip hostnames =
     (case addHost_loop 0 ip hostnames hosts of
        Inl p \<Rightarrow> Inl p
      | Inr (hosts', updated) \<Rightarrow>
          if \<not> updated then
            (case uniqueStrings hostnames of
               Inl p \<Rightarrow> Inl p
             | Inr u \<Rightarrow> Inr (hosts' @ [IHost \<lparr>IP = ip, Hostnames = u\<rparr>]))
          else Inr hosts')"

text \<open>
  \<^verbatim>\<open>cmdResolve\<close>: the result is the text printed, the ip and a line feed
  (\<^verbatim>\<open>fmt.Println\<close>) at the first match, nothing when the loops end.
\<close>

fun hostname_loop :: "string list \<Rightarrow> string \<Rightarrow> bool" where
  "hostname_loop [] searchHostname = False"
| "hostname_loop (hostname # rest) searchHostname =
     (if hostname = searchHostname then True else hostname_loop rest searchHostname)"

fun cmdResolve :: "iface list \<Rightarrow> string \<Rightarrow> string" where
  "cmdResolve [] searchHostname = []"
| "cmdResolve (host # hosts) searchHostname =
     (case host of
        IHost host \<Rightarrow>
          if hostname_loop (Hostnames host) searchHostname then IP host @ [CHR 0x0A]
          else cmdResolve hosts searchHostname
      | _ \<Rightarrow> cmdResolve hosts searchHostname)"

text \<open>
  \<^verbatim>\<open>cmdRemoveIP\<close>: the first argument of the loop is \<open>i + 1\<close> for the loop variable
  \<open>i\<close>, which runs from \<^verbatim>\<open>len(hosts) - 1\<close> down to 0. The call
  \<^verbatim>\<open>append(hosts[:i], hosts[i+1:])\<close> has no \<^verbatim>\<open>...\<close> after its second argument: it
  appends one element, the slice \<^verbatim>\<open>hosts[i+1:]\<close> itself as an interface value. That
  slice shares its array with \<^verbatim>\<open>hosts\<close>; the loop writes only at smaller indices
  afterwards, so its elements stay what they were when it was stored.
\<close>

fun rmip_loop :: "nat \<Rightarrow> string \<Rightarrow> iface list \<Rightarrow> panic + iface list" where
  "rmip_loop 0 ip hosts = Inr hosts"
| "rmip_loop (Suc i) ip hosts =
     (if i < length hosts then
        (case hosts ! i of
           IHost host \<Rightarrow>
             if IP host = ip then
               rmip_loop i ip (take i hosts @ [ISlice (drop (i + 1) hosts)])
             else rmip_loop i ip hosts
         | _ \<Rightarrow> rmip_loop i ip hosts)
      else Inl IndexOutOfRange)"

definition cmdRemoveIP :: "iface list \<Rightarrow> string \<Rightarrow> panic + iface list" where
  "cmdRemoveIP hosts ip = rmip_loop (length hosts) ip hosts"

text \<open>
  \<^verbatim>\<open>cmdRemoveHost\<close>: the same loop; here the element is deleted with
  \<^verbatim>\<open>append(hosts[:i], hosts[i+1:]...)\<close>.
\<close>

fun removeHostnames_loop :: "string list \<Rightarrow> string list \<Rightarrow> string list" where
  "removeHostnames_loop cur [] = cur"
| "removeHostnames_loop cur (hostname # rest) =
     removeHostnames_loop (removeHostname cur hostname) rest"

fun rmhost_loop :: "nat \<Rightarrow> string list \<Rightarrow> iface list \<Rightarrow> panic + iface list" where
  "rmhost_loop 0 hostnames hosts = Inr hosts"
| "rmhost_loop (Suc i) hostnames hosts =
     (if i < length hosts then
        (case hosts ! i of
           IHost host \<Rightarrow>
             (let names = removeHostnames_loop (Hostnames host) hostnames in
              if length names > 0 then
                rmhost_loop i hostnames (hosts[i := IHost (host\<lparr>Hostnames := names\<rparr>)])
              else rmhost_loop i hostnames (take i hosts @ drop (i + 1) hosts))
         | _ \<Rightarrow> rmhost_loop i hostnames hosts)
      else Inl IndexOutOfRange)"

definition cmdRemoveHost :: "iface list \<Rightarrow> string list \<Rightarrow> panic + iface list" where
  "cmdRemoveHost hosts hostnames = rmhost_loop (length hosts) hostnames hosts"

section \<open>Notions used to state the properties\<close>

text \<open>\<open>hasHostname name e\<close>: the value \<open>e\<close> is a \<^verbatim>\<open>Host\<close> that lists \<open>name\<close>.\<close>

definition hasHostname :: "string \<Rightarrow> iface \<Rightarrow> bool" where
  "hasHostname name e = (case e of IHost host \<Rightarrow> name \<in> set (Hostnames host) | _ \<Rightarrow> False)"

text \<open>
  \<open>first_occurrences xs\<close> keeps of every element of \<open>xs\<close> its first occurrence, in the
  order of \<open>xs\<close> (see \<open>first_occurrences_nth\<close> below). \<open>keep_unseen S xs\<close> does so for the
  elements outside \<open>S\<close>.
\<close>

fun first_occurrences :: "'a list \<Rightarrow> 'a list" where
  "first_occurrences [] = []"
| "first_occurrences (x # xs) = x # filter (\<lambda>y. y \<noteq> x) (first_occurrences xs)"

fun keep_unseen :: "'a set \<Rightarrow> 'a list \<Rightarrow> 'a list" where
  "keep_unseen S [] = []"
| "keep_unseen S (x # xs) = (if x \<in> S then keep_unseen S xs else x # keep_unseen (insert x S) xs)"

text \<open>\<open>hasIP ip e\<close>: the value \<open>e\<close> is a \<^verbatim>\<open>Host\<close> with this ip.\<close>

definition hasIP :: "string \<Rightarrow> iface \<Rightarrow> bool" where
  "hasIP ip e = (case e of IHost host \<Rightarrow> IP host = ip | _ \<Rightarrow> False)"

text \<open>
  The classification of one row as the specification words it: the row is trimmed;
  an empty row or one that starts with \<open>#\<close> is a passthrough line, a row with fewer than
  two fields is a passthrough line, any other row is a record of its first field and
  the remaining fields.
\<close>

definition classify_row :: "string \<Rightarrow> iface" where
  "classify_row row =
     (let t = TrimSpace row in
      if t = [] \<or> HasPrefix_hash t then IString t
      else if length (Fields t) < 2 then IString t
      else IHost \<lparr>IP = hd (Fields t), Hostnames = tl (Fields t)\<rparr>)"

text \<open>
  \<open>all_hostnames P hosts\<close>: \<open>P\<close> holds of the hostnames of every \<^verbatim>\<open>Host\<close> that is an element
  of the slice. These are the records of the file: \<^verbatim>\<open>RenderHosts\<close> writes a row for
  them and for no other \<^verbatim>\<open>Host\<close>.
\<close>

definition all_hostnames :: "(string list \<Rightarrow> bool) \<Rightarrow> iface list \<Rightarrow> bool" where
  "all_hostnames P hosts =
     list_all (\<lambda>e. case e of IHost host \<Rightarrow> P (Hostnames host) | _ \<Rightarrow> True) hosts"

text \<open>
  What \<^verbatim>\<open>rmhost\<close> leaves of one value: a \<^verbatim>\<open>Host\<close> with the names removed, or nothing
  when no hostname is left; any other value as it is.
\<close>

definition rmhost_entry :: "string list \<Rightarrow> iface \<Rightarrow> iface list" where
  "rmhost_entry hostnames e =
     (case e of
        IHost host \<Rightarrow>
          (let names = removeHostnames_loop (Hostnames host) hostnames in
           if names = [] then [] else [IHost (host\<lparr>Hostnames := names\<rparr>)])
      | _ \<Rightarrow> [e])"

text \<open>
  What one iteration of the loop of \<^verbatim>\<open>rmip\<close> makes of the value \<open>e\<close> and the values
  \<open>rest\<close> after it.
\<close>

definition rmip_step :: "string \<Rightarrow> iface \<Rightarrow> iface list \<Rightarrow> iface list" where
  "rmip_step ip e rest = (if hasIP ip e then [ISlice rest] else e # rest)"

text \<open>
  The rows \<^verbatim>\<open>RenderHosts\<close> writes. A token is a non-empty string without white space
  (no white space code point starts at any of its bytes). A \<^verbatim>\<open>Host\<close> is \<open>written\<close> when
  its ip is a token that does not start with \<open>#\<close> and its hostnames are one or more
  tokens; \<open>row_of\<close> is its row (the ip, a tab, the hostnames with single spaces
  between them) and \<open>text_of\<close> the text of such rows, each ended by a line feed.
\<close>

fun spaceFree :: "string \<Rightarrow> bool" where
  "spaceFree [] = True"
| "spaceFree (c # s) = (spaceWidth (c # s) = 0 \<and> spaceFree s)"

definition isToken :: "string \<Rightarrow> bool" where
  "isToken t \<longleftrightarrow> t \<noteq> [] \<and> spaceFree t"

definition written :: "Host \<Rightarrow> bool" where
  "written host \<longleftrightarrow>
     isToken (IP host) \<and> \<not> HasPrefix_hash (IP host) \<and>
     Hostnames host \<noteq> [] \<and> list_all isToken (Hostnames host)"

definition row_of :: "Host \<Rightarrow> string" where
  "row_of host = IP host @ [CHR 0x09] @ Join (Hostnames host) [CHR 0x20]"

definition text_of :: "Host list \<Rightarrow> string" where
  "text_of recs = concat (map (\<lambda>host. row_of host @ [CHR 0x0A]) recs)"

text \<open>What \<^verbatim>\<open>RenderHosts\<close> writes for one value.\<close>

definition render_entry :: "iface \<Rightarrow> string" where
  "render_entry e =
     (case e of
        IString v \<Rightarrow> v
      | IHost v \<Rightarrow> IP v @ [CHR 0x09] @ Join (Hostnames v) [CHR 0x20] @ [CHR 0x0A]
      | ISlice _ \<Rightarrow> [])"

section \<open>Properties\<close>

subsection \<open>The model of the strings package\<close>

text \<open>
  Facts about the functions of the strings package as modelled above: \<^verbatim>\<open>Split\<close> cuts
  the text at its line feeds, \<^verbatim>\<open>TrimSpace\<close> returns a piece of its argument that neither
  starts nor ends with white space, and every field of \<^verbatim>\<open>Fields\<close> is a token.
\<close>

lemma asciiSpace_not_high: "asciiSpace c \<Longrightarrow> \<not> digit7 c"
  by (auto simp: asciiSpace_def)

lemma unicodeSpaces_high: "p \<in> set unicodeSpaces \<Longrightarrow> c \<in> set p \<Longrightarrow> digit7 c"
  by (auto simp: unicodeSpaces_def)

lemma unicodeSpaces_length: "p \<in> set unicodeSpaces \<Longrightarrow> 2 \<le> length p"
  by (auto simp: unicodeSpaces_def)

lemma spaceWidth_zero_iff:
  "spaceWidth s = 0 \<longleftrightarrow>
   s = [] \<or> (\<not> asciiSpace (hd s) \<and> (\<forall>p \<in> set unicodeSpaces. \<not> prefix p s))"
proof (cases s)
  case Nil
  then show ?thesis by simp
next
  case (Cons c t)
  show ?thesis
  proof (cases "find (\<lambda>p. prefix p s) unicodeSpaces")
    case None
    have "spaceWidth s = (if asciiSpace c then 1 else 0)"
      unfolding spaceWidth_def None using Cons by simp
    moreover from None have "\<forall>p \<in> set unicodeSpaces. \<not> prefix p s"
      by (simp add: find_None_iff)
    ultimately show ?thesis
      using Cons by simp
  next
    case (Some p)
    then have p: "p \<in> set unicodeSpaces" "prefix p s"
      by (auto simp: find_Some_iff)
    then have "length p \<noteq> 0" using unicodeSpaces_length [of p] by auto
    moreover have "spaceWidth s = (if asciiSpace c then 1 else length p)"
      unfolding spaceWidth_def Some using Cons by simp
    ultimately show ?thesis
      using p Cons by auto
  qed
qed

lemma spaceWidth_ascii: "asciiSpace c \<Longrightarrow> spaceWidth (c # s) = 1"
  by (simp add: spaceWidth_def)

text \<open>A string that does not start with white space still does not when ASCII text follows.\<close>

lemma spaceWidth_append:
  assumes "u \<noteq> []" "spaceWidth u = 0" "ctx = [] \<or> \<not> digit7 (hd ctx)"
  shows "spaceWidth (u @ ctx) = 0"
proof -
  from assms(1,2) have a: "\<not> asciiSpace (hd u)" and b: "\<forall>p \<in> set unicodeSpaces. \<not> prefix p u"
    by (simp_all add: spaceWidth_zero_iff)
  have "\<not> prefix p (u @ ctx)" if p: "p \<in> set unicodeSpaces" for p
  proof
    assume "prefix p (u @ ctx)"
    then obtain us where us: "prefix p u \<or> (p = u @ us \<and> prefix us ctx)"
      by (auto simp: prefix_append)
    then consider "prefix p u" | ctx' where "p = u @ ctx'" "ctx' \<noteq> []" "prefix ctx' ctx"
      by (cases "us = []") auto
    then show False
    proof cases
      case 1
      with b p show False by blast
    next
      case 2
      then have "ctx \<noteq> []" "hd ctx' = hd ctx" by (auto simp: prefix_def)
      moreover from 2 have "hd ctx' \<in> set p" by simp
      ultimately show False
        using assms(3) unicodeSpaces_high [OF p] by auto
    qed
  qed
  with a assms(1) show ?thesis
    by (simp add: spaceWidth_zero_iff)
qed

lemma spaceWidth_prefix_zero: "spaceWidth (u @ v) = 0 \<Longrightarrow> spaceWidth u = 0"
proof (cases "u = []")
  case True
  then show ?thesis by simp
next
  case False
  assume "spaceWidth (u @ v) = 0"
  with False have a: "\<not> asciiSpace (hd u)"
    and b: "\<forall>p \<in> set unicodeSpaces. \<not> prefix p (u @ v)"
    by (simp_all add: spaceWidth_zero_iff)
  from b have "\<forall>p \<in> set unicodeSpaces. \<not> prefix p u"
    using prefix_prefix by blast
  with a show ?thesis by (simp add: spaceWidth_zero_iff)
qed

lemma spaceWidth_whole:
  assumes "spaceWidth u = length u" "u \<noteq> []"
  shows "(\<exists>c. u = [c] \<and> asciiSpace c) \<or> u \<in> set unicodeSpaces"
proof (cases "asciiSpace (hd u)")
  case True
  with assms(2) have "spaceWidth u = 1" by (cases u) (simp_all add: spaceWidth_ascii)
  with assms True show ?thesis by (cases u) auto
next
  case False
  from assms have "spaceWidth u \<noteq> 0" by simp
  with False assms(2) obtain p where p: "p \<in> set unicodeSpaces" "prefix p u"
    by (auto simp: spaceWidth_zero_iff)
  then have "find (\<lambda>p. prefix p u) unicodeSpaces \<noteq> None"
    by (auto simp: find_None_iff)
  then obtain q where q: "find (\<lambda>p. prefix p u) unicodeSpaces = Some q" by auto
  then have q': "q \<in> set unicodeSpaces" "prefix q u" by (auto simp: find_Some_iff)
  have "spaceWidth u = length q"
    unfolding spaceWidth_def q using False assms(2) by (cases u) simp_all
  with assms(1) have "length q = length u" by simp
  with q'(2) have "q = u" by (auto simp: prefix_def)
  with q' show ?thesis by simp
qed

lemma spaceFree_drop: "spaceFree t \<Longrightarrow> spaceWidth (drop i t) = 0"
proof (induction t arbitrary: i)
  case Nil
  then show ?case by simp
next
  case (Cons c t)
  then show ?case by (cases i) simp_all
qed

lemma spaceFree_iff: "spaceFree t \<longleftrightarrow> (\<forall>i < length t. spaceWidth (drop i t) = 0)"
proof (induction t)
  case Nil
  then show ?case by simp
next
  case (Cons c t)
  show ?case
  proof
    assume "spaceFree (c # t)"
    then show "\<forall>i < length (c # t). spaceWidth (drop i (c # t)) = 0"
      by (simp add: spaceFree_drop)
  next
    assume a: "\<forall>i < length (c # t). spaceWidth (drop i (c # t)) = 0"
    then have "spaceWidth (c # t) = 0" by fastforce
    moreover have "\<forall>i < length t. spaceWidth (drop i t) = 0"
    proof (intro allI impI)
      fix i assume "i < length t"
      with a have "spaceWidth (drop (Suc i) (c # t)) = 0" by (intro a [rule_format]) simp
      then show "spaceWidth (drop i t) = 0" by simp
    qed
    ultimately show "spaceFree (c # t)" using Cons by simp
  qed
qed

lemma spaceFree_no_ascii: "spaceFree t \<Longrightarrow> c \<in> set t \<Longrightarrow> \<not> asciiSpace c"
proof (induction t)
  case Nil
  then show ?case by simp
next
  case (Cons d t)
  then show ?case
    by (auto simp: spaceWidth_zero_iff)
qed

lemma trimLeft_id: "spaceWidth s = 0 \<Longrightarrow> trimLeft s = s"
  by (subst trimLeft.simps) simp

lemma trimRight_id: "lastSpaceWidth s = 0 \<Longrightarrow> trimRight s = s"
  by (subst trimRight.simps) simp

lemma TrimSpace_Nil: "TrimSpace [] = []"
  by (simp add: TrimSpace_def trimLeft_id trimRight_id lastSpaceWidth_def)

lemma spaceWidth_trimLeft: "spaceWidth (trimLeft s) = 0"
proof (induction s rule: trimLeft.induct)
  case (1 s)
  then show ?case by (subst trimLeft.simps) auto
qed

lemma lastSpaceWidth_trimRight: "lastSpaceWidth (trimRight s) = 0"
proof (induction s rule: trimRight.induct)
  case (1 s)
  then show ?case by (subst trimRight.simps) auto
qed

lemma spaceWidth_trimRight: "spaceWidth s = 0 \<Longrightarrow> spaceWidth (trimRight s) = 0"
proof (induction s rule: trimRight.induct)
  case (1 s)
  have "spaceWidth (take n s) = 0" for n
    using "1.prems" spaceWidth_prefix_zero [of "take n s" "drop n s"] by simp
  with 1 show ?case by (subst trimRight.simps) auto
qed

lemma TrimSpace_ends:
  "spaceWidth (TrimSpace s) = 0 \<and> lastSpaceWidth (TrimSpace s) = 0"
  by (simp add: TrimSpace_def spaceWidth_trimLeft spaceWidth_trimRight lastSpaceWidth_trimRight)

lemma suffix_trimLeft: "suffix (trimLeft s) s"
proof (induction s rule: trimLeft.induct)
  case (1 s)
  show ?case
  proof (cases "spaceWidth s = 0")
    case True
    then show ?thesis by (subst trimLeft.simps) simp
  next
    case False
    with 1 have "suffix (trimLeft (drop (spaceWidth s) s)) (drop (spaceWidth s) s)" by simp
    then have "suffix (trimLeft (drop (spaceWidth s) s)) s"
      by (rule suffix_order.trans) (rule suffix_drop)
    with False show ?thesis by (subst trimLeft.simps) simp
  qed
qed

lemma prefix_trimRight: "prefix (trimRight s) s"
proof (induction s rule: trimRight.induct)
  case (1 s)
  show ?case
  proof (cases "lastSpaceWidth s = 0")
    case True
    then show ?thesis by (subst trimRight.simps) simp
  next
    case False
    let ?t = "take (length s - lastSpaceWidth s) s"
    from False 1 have "prefix (trimRight ?t) ?t" by simp
    then have "prefix (trimRight ?t) s"
      by (rule prefix_order.trans) (rule take_is_prefix)
    with False show ?thesis by (subst trimRight.simps) simp
  qed
qed

lemma TrimSpace_piece: "\<exists>l r. s = l @ TrimSpace s @ r"
proof -
  obtain l where l: "s = l @ trimLeft s"
    using suffix_trimLeft [of s] by (auto simp: suffix_def)
  obtain r where r: "trimLeft s = trimRight (trimLeft s) @ r"
    using prefix_trimRight [of "trimLeft s"] by (auto simp: prefix_def)
  from l r have "s = l @ TrimSpace s @ r" by (simp add: TrimSpace_def)
  then show ?thesis by blast
qed

lemma Fields_loop_Nil: "Fields_loop cur [] = (if cur = [] then [] else [cur])"
  by (subst Fields_loop.simps) simp

lemma Fields_loop_space:
  "asciiSpace c \<Longrightarrow>
   Fields_loop cur (c # s) = (if cur = [] then Fields_loop [] s else cur # Fields_loop [] s)"
  by (subst Fields_loop.simps) (simp add: spaceWidth_ascii)

lemma Fields_loop_token:
  "spaceFree t \<Longrightarrow> ctx = [] \<or> \<not> digit7 (hd ctx) \<Longrightarrow>
   Fields_loop cur (t @ ctx) = Fields_loop (cur @ t) ctx"
proof (induction t arbitrary: cur)
  case Nil
  then show ?case by simp
next
  case (Cons c t)
  from Cons.prems have "spaceWidth ((c # t) @ ctx) = 0"
    by (intro spaceWidth_append) simp_all
  then have "Fields_loop cur ((c # t) @ ctx) = Fields_loop (cur @ [c]) (t @ ctx)"
    by (subst Fields_loop.simps) simp
  with Cons show ?case by simp
qed

lemma Fields_loop_tokens:
  "\<forall>i < length cur. spaceWidth (drop i cur @ s) = 0 \<Longrightarrow> list_all isToken (Fields_loop cur s)"
proof (induction cur s rule: Fields_loop.induct)
  case (1 cur s)
  have tok: "isToken cur" if "cur \<noteq> []"
  proof -
    have "spaceWidth (drop i cur) = 0" if "i < length cur" for i
      using "1.prems" that spaceWidth_prefix_zero [of "drop i cur" s] by simp
    with that show ?thesis by (simp add: isToken_def spaceFree_iff)
  qed
  show ?case
  proof (cases "s = []")
    case True
    with tok show ?thesis by (subst Fields_loop.simps) simp
  next
    case s: False
    show ?thesis
    proof (cases "spaceWidth s = 0")
      case False
      with s tok "1.IH"(1,2) show ?thesis
        by (subst Fields_loop.simps) simp
    next
      case True
      have "\<forall>i < length (cur @ [hd s]). spaceWidth (drop i (cur @ [hd s]) @ tl s) = 0"
      proof (intro allI impI)
        fix i assume i: "i < length (cur @ [hd s])"
        show "spaceWidth (drop i (cur @ [hd s]) @ tl s) = 0"
        proof (cases "i < length cur")
          case True
          with "1.prems" s show ?thesis by simp
        next
          case False
          with i have "i = length cur" by simp
          with s True show ?thesis by simp
        qed
      qed
      with s True "1.IH"(3) show ?thesis
        by (subst Fields_loop.simps) simp
    qed
  qed
qed

lemma Fields_tokens: "list_all isToken (Fields s)"
  by (simp add: Fields_def Fields_loop_tokens)

lemma Split_loop_nonempty: "Split_loop cur s \<noteq> []"
  by (induction s arbitrary: cur) auto

lemma Join_Cons: "ys \<noteq> [] \<Longrightarrow> Join (x # ys) sep = x @ sep @ Join ys sep"
  by (cases ys) simp_all

lemma Join_Split_loop: "Join (Split_loop cur s) [CHR 0x0A] = cur @ s"
  by (induction s arbitrary: cur) (simp_all add: Join_Cons Split_loop_nonempty)

lemma Split_loop_no_newline:
  "CHR 0x0A \<notin> set cur \<Longrightarrow> list_all (\<lambda>row. CHR 0x0A \<notin> set row) (Split_loop cur s)"
  by (induction s arbitrary: cur) auto

lemma Split_loop_row:
  "CHR 0x0A \<notin> set r \<Longrightarrow> Split_loop cur (r @ CHR 0x0A # rest) = (cur @ r) # Split_loop [] rest"
  by (induction r arbitrary: cur) auto

lemma Split_loop_rows:
  "\<forall>r \<in> set rows. CHR 0x0A \<notin> set r \<Longrightarrow>
   Split_loop [] (concat (map (\<lambda>r. r @ [CHR 0x0A]) rows)) = rows @ [[]]"
  by (induction rows) (simp_all add: Split_loop_row)

lemma Split_loop_final:
  "Split_loop cur (s @ [CHR 0x0A]) = Split_loop cur s @ [[]]"
  by (induction s arbitrary: cur) auto

lemma set_Join: "set (Join names sep) \<subseteq> \<Union> (set ` set names) \<union> set sep"
  by (induction names sep rule: Join.induct) auto

subsection \<open>removeHostname\<close>

lemma removeIndex_loop_absent:
  "remove \<notin> set hostnames \<Longrightarrow> removeIndex_loop removeIndex i hostnames remove = removeIndex"
  by (induction hostnames arbitrary: removeIndex i) auto

lemma removeIndex_loop_last:
  "remove \<notin> set post \<Longrightarrow>
   removeIndex_loop removeIndex i (pre @ remove # post) remove = int (i + length pre)"
  by (induction pre arbitrary: removeIndex i) (auto simp: removeIndex_loop_absent)

lemma removeHostname_last:
  "remove \<notin> set post \<Longrightarrow> removeHostname (pre @ remove # post) remove = pre @ post"
  by (simp add: removeHostname_def removeIndex_loop_last)

lemma removeHostname_absent:
  "remove \<notin> set hostnames \<Longrightarrow> removeHostname hostnames remove = hostnames"
  by (simp add: removeHostname_def removeIndex_loop_absent)

text \<open>
  C10. When the name occurs in the list, \<^verbatim>\<open>removeHostname\<close> removes its last occurrence
  and nothing else: the list is \<open>pre @ remove # post\<close> with no occurrence in \<open>post\<close>,
  and the result is \<open>pre @ post\<close>. When the name does not occur, the list is returned
  as it is.
\<close>

theorem removeHostname_removes_last_occurrence:
  "(remove \<notin> set post \<longrightarrow> removeHostname (pre @ remove # post) remove = pre @ post) \<and>
   (remove \<in> set hostnames \<longrightarrow>
      (\<exists>pre post. hostnames = pre @ remove # post \<and> remove \<notin> set post \<and>
         removeHostname hostnames remove = pre @ post)) \<and>
   (remove \<notin> set hostnames \<longrightarrow> removeHostname hostnames remove = hostnames)"
proof (intro conjI impI)
  assume "remove \<notin> set post"
  then show "removeHostname (pre @ remove # post) remove = pre @ post"
    by (rule removeHostname_last)
next
  assume "remove \<in> set hostnames"
  then obtain pre post where split: "hostnames = pre @ remove # post" "remove \<notin> set post"
    by (auto dest: split_list_last)
  then have "removeHostname hostnames remove = pre @ post"
    by (simp add: removeHostname_last)
  with split show "\<exists>pre post. hostnames = pre @ remove # post \<and> remove \<notin> set post \<and>
         removeHostname hostnames remove = pre @ post"
    by blast
next
  assume "remove \<notin> set hostnames"
  then show "removeHostname hostnames remove = hostnames"
    by (rule removeHostname_absent)
qed

theorem removeHostname_removes_last_occurrence_witness:
  "removeHostname ([''a'', ''b''] @ ''a'' # [''c'']) ''a'' = [''a'', ''b''] @ [''c''] \<and>
   (\<exists>pre post. [''a'', ''b'', ''a'', ''c''] = pre @ ''a'' # post \<and> ''a'' \<notin> set post \<and>
      removeHostname [''a'', ''b'', ''a'', ''c''] ''a'' = pre @ post) \<and>
   removeHostname [''a'', ''b''] ''z'' = [''a'', ''b'']"
proof -
  note first = removeHostname_removes_last_occurrence
                 [of "''a''" "[''c'']" "[''a'', ''b'']" "[''a'', ''b'', ''a'', ''c'']"]
  note second = removeHostname_removes_last_occurrence
                  [of "''z''" "[]" "[]" "[''a'', ''b'']"]
  have post: "''a'' \<notin> set [''c'']" and occurs: "''a'' \<in> set [''a'', ''b'', ''a'', ''c'']"
    and absent: "''z'' \<notin> set [''a'', ''b'']"
    by simp_all
  from first post
  have "removeHostname ([''a'', ''b''] @ ''a'' # [''c'']) ''a'' = [''a'', ''b''] @ [''c'']"
    by blast
  moreover from first occurs
  have "\<exists>pre post. [''a'', ''b'', ''a'', ''c''] = pre @ ''a'' # post \<and> ''a'' \<notin> set post \<and>
      removeHostname [''a'', ''b'', ''a'', ''c''] ''a'' = pre @ post"
    by blast
  moreover from second absent have "removeHostname [''a'', ''b''] ''z'' = [''a'', ''b'']"
    by blast
  ultimately show ?thesis by blast
qed

lemma subseq_removeHostname: "subseq (removeHostname hostnames remove) hostnames"
proof (cases "remove \<in> set hostnames")
  case True
  then obtain pre post where "hostnames = pre @ remove # post" "remove \<notin> set post"
    by (auto dest: split_list_last)
  then show ?thesis
    using subseq_drop_many [of post post "[remove]"]
    by (simp add: removeHostname_last subseq_append')
next
  case False
  then show ?thesis by (simp add: removeHostname_absent)
qed

lemma subseq_removeHostnames_loop: "subseq (removeHostnames_loop cur hostnames) cur"
proof (induction hostnames arbitrary: cur)
  case Nil
  then show ?case by simp
next
  case (Cons h hostnames)
  have "subseq (removeHostnames_loop (removeHostname cur h) hostnames) (removeHostname cur h)"
    by (rule Cons.IH)
  then show ?case
    using subseq_removeHostname [of cur h] by (auto intro: subseq_order.order_trans)
qed

lemma distinct_removeHostnames_loop:
  "distinct cur \<Longrightarrow> distinct (removeHostnames_loop cur hostnames)"
  using subseq_removeHostnames_loop [of cur hostnames]
  by (auto simp: subseq_conv_nths)

subsection \<open>uniqueStrings\<close>

lemma set_first_occurrences [simp]: "set (first_occurrences xs) = set xs"
  by (induction xs) auto

lemma distinct_first_occurrences [simp]: "distinct (first_occurrences xs)"
  by (induction xs) auto

lemma first_occurrences_distinct: "distinct xs \<Longrightarrow> first_occurrences xs = xs"
  by (induction xs) (auto simp: filter_id_conv)

lemma first_occurrences_append:
  "first_occurrences (xs @ ys) =
   first_occurrences xs @ filter (\<lambda>y. y \<notin> set xs) (first_occurrences ys)"
proof (induction xs)
  case Nil
  then show ?case by simp
next
  case (Cons x xs)
  have "filter (\<lambda>y. y \<noteq> x) (filter (\<lambda>y. y \<notin> set xs) (first_occurrences ys)) =
        filter (\<lambda>y. y \<notin> set (x # xs)) (first_occurrences ys)"
    by (auto intro: filter_cong)
  with Cons show ?case by simp
qed

lemma first_occurrences_nth:
  "first_occurrences xs = map (\<lambda>i. xs ! i) (filter (\<lambda>i. xs ! i \<notin> set (take i xs)) [0..<length xs])"
proof (induction xs rule: rev_induct)
  case Nil
  then show ?case by simp
next
  case (snoc x xs)
  let ?ys = "xs @ [x]"
  have a: "filter (\<lambda>i. ?ys ! i \<notin> set (take i ?ys)) [0..<length xs] =
           filter (\<lambda>i. xs ! i \<notin> set (take i xs)) [0..<length xs]"
    by (rule filter_cong) (auto simp: nth_append)
  have b: "map (\<lambda>i. ?ys ! i) (filter (\<lambda>i. xs ! i \<notin> set (take i xs)) [0..<length xs]) =
           map (\<lambda>i. xs ! i) (filter (\<lambda>i. xs ! i \<notin> set (take i xs)) [0..<length xs])"
    by (rule map_cong) (auto simp: nth_append)
  have "map (\<lambda>i. ?ys ! i) (filter (\<lambda>i. ?ys ! i \<notin> set (take i ?ys)) [0..<length ?ys]) =
        map (\<lambda>i. ?ys ! i) (filter (\<lambda>i. ?ys ! i \<notin> set (take i ?ys)) [0..<length xs]) @
        (if x \<in> set xs then [] else [x])"
    by simp
  also have "\<dots> = first_occurrences xs @ (if x \<in> set xs then [] else [x])"
    unfolding a b snoc.IH [symmetric] ..
  also have "\<dots> = first_occurrences ?ys"
    by (simp add: first_occurrences_append)
  finally show ?case by simp
qed

lemma first_occurrences_again:
  "first_occurrences (first_occurrences (xs @ ys) @ ys) = first_occurrences (xs @ ys)"
proof -
  have "filter (\<lambda>y. y \<notin> set (first_occurrences (xs @ ys))) (first_occurrences ys) = []"
    by (simp add: filter_empty_conv)
  then show ?thesis
    by (subst first_occurrences_append) (simp add: first_occurrences_distinct)
qed

lemma keep_unseen_eq:
  "keep_unseen S xs = filter (\<lambda>y. y \<notin> S) (first_occurrences xs)"
proof (induction xs arbitrary: S)
  case Nil
  then show ?case by simp
next
  case (Cons x xs)
  show ?case
  proof (cases "x \<in> S")
    case True
    have "filter (\<lambda>y. y \<notin> S) (filter (\<lambda>y. y \<noteq> x) (first_occurrences xs)) =
          filter (\<lambda>y. y \<notin> S) (first_occurrences xs)"
      using True by (auto intro: filter_cong)
    with True Cons show ?thesis by simp
  next
    case False
    have "filter (\<lambda>y. y \<notin> S) (filter (\<lambda>y. y \<noteq> x) (first_occurrences xs)) =
          filter (\<lambda>y. y \<notin> insert x S) (first_occurrences xs)"
      by (auto intro: filter_cong)
    with False Cons show ?thesis by simp
  qed
qed

lemma uniqueStrings_loop_eq:
  "j \<le> i \<Longrightarrow> i \<le> length s \<Longrightarrow>
   uniqueStrings_loop seen j i s = Inr (take j s @ keep_unseen (dom seen) (drop i s))"
proof (induction seen j i s rule: uniqueStrings_loop.induct)
  case (1 seen j i s)
  show ?case
  proof (cases "i < length s")
    case False
    with "1.prems" show ?thesis
      by (subst uniqueStrings_loop.simps) simp
  next
    case True
    then have d: "drop i s = s ! i # drop (Suc i) s"
      by (simp add: Cons_nth_drop_Suc)
    show ?thesis
    proof (cases "seen (s ! i) = None")
      case False
      with True "1.prems" "1.IH"(1) [OF True refl] d show ?thesis
        by (subst uniqueStrings_loop.simps) (auto simp: domIff Let_def)
    next
      case None: True
      from True "1.prems" have j: "j < length s" by simp
      have "uniqueStrings_loop (seen(s ! i \<mapsto> ())) (j + 1) (i + 1) (s[j := s ! i]) =
            Inr (take (j + 1) (s[j := s ! i]) @
                 keep_unseen (dom (seen(s ! i \<mapsto> ()))) (drop (i + 1) (s[j := s ! i])))"
        using True None j "1.prems" by (intro "1.IH"(2) [OF True refl]) auto
      moreover have "take (j + 1) (s[j := s ! i]) = take j s @ [s ! i]"
        using j by (simp add: take_Suc_conv_app_nth)
      moreover have "drop (i + 1) (s[j := s ! i]) = drop (Suc i) s"
        using "1.prems" by simp
      ultimately show ?thesis
        using True None j d
        by (subst uniqueStrings_loop.simps) (simp add: Let_def domIff)
    qed
  qed
qed

lemma uniqueStrings_eq: "uniqueStrings s = Inr (first_occurrences s)"
  by (simp add: uniqueStrings_def uniqueStrings_loop_eq keep_unseen_eq)

subsection \<open>ReadHosts\<close>

lemma ReadHosts_loop_eq: "ReadHosts_loop hosts rows = hosts @ map classify_row rows"
proof (induction rows arbitrary: hosts)
  case Nil
  then show ?case by simp
next
  case (Cons row rows)
  have f: "2 \<le> length fs \<Longrightarrow> fs ! 0 = hd fs \<and> drop 1 fs = tl fs" for fs :: "string list"
    by (cases fs) (auto simp: drop_Suc)
  show ?case
    by (auto simp: Cons classify_row_def Let_def not_less dest: f)
qed

text \<open>
  C8. \<^verbatim>\<open>ReadHosts\<close> splits the text into rows at the line feeds and turns every row, in
  order, into one value: the trimmed row as a string when it is empty, starts with \<open>#\<close>
  or has fewer than two fields, and otherwise a \<^verbatim>\<open>Host\<close> of the first field and the
  remaining fields. The rows are the pieces of the text between its line feeds:
  they hold no line feed, and joined with line feeds they are the text.
\<close>

theorem ReadHosts_classifies_rows:
  "ReadHosts (Some text) = Some (map classify_row (Split_lines text)) \<and>
   Join (Split_lines text) [CHR 0x0A] = text \<and>
   list_all (\<lambda>row. CHR 0x0A \<notin> set row) (Split_lines text)"
  by (simp add: ReadHosts_def ReadHosts_loop_eq Split_lines_def Join_Split_loop
        Split_loop_no_newline)

theorem ReadHosts_classifies_rows_witness:
  "ReadHosts (Some (''# c'' @ [CHR 0x0A] @ ''  10.0.0.5  foo   bar '' @ [CHR 0x0A] @ ''lonely''))
   = Some [IString ''# c'', IHost \<lparr>IP = ''10.0.0.5'', Hostnames = [''foo'', ''bar'']\<rparr>,
           IString ''lonely'']"
proof -
  have "map classify_row
          (Split_lines (''# c'' @ [CHR 0x0A] @ ''  10.0.0.5  foo   bar '' @ [CHR 0x0A] @ ''lonely''))
        = [IString ''# c'', IHost \<lparr>IP = ''10.0.0.5'', Hostnames = [''foo'', ''bar'']\<rparr>,
           IString ''lonely'']"
    by code_simp
  then show ?thesis
    using ReadHosts_classifies_rows
      [of "''# c'' @ [CHR 0x0A] @ ''  10.0.0.5  foo   bar '' @ [CHR 0x0A] @ ''lonely''"]
    by simp
qed

subsection \<open>RenderHosts\<close>

lemma RenderHosts_loop_eq:
  "RenderHosts_loop buf hosts = buf @ concat (map render_entry hosts)"
  by (induction hosts arbitrary: buf) (auto simp: render_entry_def Let_def split: iface.splits)

lemma RenderHosts_eq: "RenderHosts hosts = concat (map render_entry hosts)"
  by (simp add: RenderHosts_def RenderHosts_loop_eq)

text \<open>
  C3. \<^verbatim>\<open>RenderHosts\<close> writes a string value without a line terminator: the comment and
  the record after it end up on one line.
\<close>

theorem RenderHosts_passthrough_without_terminator:
  "RenderHosts [IString ''# c'', IHost \<lparr>IP = ''10.0.0.1'', Hostnames = [''a'', ''b'']\<rparr>] =
     ''# c10.0.0.1'' @ [CHR 0x09] @ ''a b'' @ [CHR 0x0A]"
  by code_simp

subsection \<open>ReadHosts and RenderHosts on the rows RenderHosts writes\<close>

text \<open>A string that ends with a token after ASCII text does not end with white space.\<close>

lemma lastSpaceWidth_token:
  assumes "isToken t" "pre = [] \<or> \<not> digit7 (last pre)"
  shows "lastSpaceWidth (pre @ t) = 0"
proof -
  let ?s = "pre @ t"
  have no: "spaceWidth (drop (length ?s - k) ?s) \<noteq> k" if k: "1 \<le> k" "k \<le> length ?s" for k
  proof
    define u where "u = drop (length ?s - k) ?s"
    assume "spaceWidth (drop (length ?s - k) ?s) = k"
    then have w: "spaceWidth u = k" by (simp add: u_def)
    from k have len: "length u = k" by (simp add: u_def)
    from assms(1) have t: "t \<noteq> []" "spaceFree t" by (simp_all add: isToken_def)
    show False
    proof (cases "k \<le> length t")
      case True
      then have "u = drop (length t - k) t" by (simp add: u_def)
      with t have "spaceWidth u = 0"
        by (simp add: spaceFree_drop)
      with w k show False by simp
    next
      case False
      with k have pre: "pre \<noteq> []" by auto
      define d where "d = drop (length pre - (k - length t)) pre"
      from False k have u: "u = d @ t"
        by (simp add: d_def u_def)
      from False k have "length d = k - length t" by (simp add: d_def)
      with False have d: "d \<noteq> []" by auto
      then have "last d = last pre"
        unfolding d_def by (simp add: last_drop)
      with d have "last pre \<in> set d" by (metis last_in_set)
      with u have mem: "last pre \<in> set u" by simp
      from u d t have two: "2 \<le> length u"
        by (cases d; cases t) simp_all
      from w len k have "(\<exists>c. u = [c] \<and> asciiSpace c) \<or> u \<in> set unicodeSpaces"
        by (intro spaceWidth_whole) auto
      with two have "u \<in> set unicodeSpaces" by auto
      then have "digit7 (last pre)" using mem by (rule unicodeSpaces_high)
      with assms(2) pre show False by simp
    qed
  qed
  show ?thesis
    unfolding lastSpaceWidth_def Let_def
    using no [of 1] no [of 2] no [of 3] by simp
qed

lemma Fields_loop_Join:
  "list_all isToken names \<Longrightarrow> Fields_loop [] (Join names [CHR 0x20]) = names"
proof (induction names "[CHR 0x20]" rule: Join.induct)
  case 1
  then show ?case by (simp add: Fields_loop_Nil)
next
  case (2 x)
  then have "Fields_loop [] (x @ []) = Fields_loop ([] @ x) []"
    by (intro Fields_loop_token) (simp_all add: isToken_def)
  with 2 show ?case by (simp add: Fields_loop_Nil isToken_def)
next
  case (3 x y ys)
  then have x: "spaceFree x" "x \<noteq> []" by (simp_all add: isToken_def)
  have "Fields_loop [] (x @ CHR 0x20 # Join (y # ys) [CHR 0x20]) =
        Fields_loop ([] @ x) (CHR 0x20 # Join (y # ys) [CHR 0x20])"
    using x by (intro Fields_loop_token) simp_all
  also have "\<dots> = x # Fields_loop [] (Join (y # ys) [CHR 0x20])"
    using x by (simp add: Fields_loop_space asciiSpace_def)
  finally show ?case using 3 by simp
qed

lemma Fields_row_of: "written host \<Longrightarrow> Fields (row_of host) = IP host # Hostnames host"
proof -
  assume w: "written host"
  then have ip: "spaceFree (IP host)" "IP host \<noteq> []" by (simp_all add: written_def isToken_def)
  have "Fields_loop [] (IP host @ CHR 0x09 # Join (Hostnames host) [CHR 0x20]) =
        Fields_loop ([] @ IP host) (CHR 0x09 # Join (Hostnames host) [CHR 0x20])"
    using ip by (intro Fields_loop_token) simp_all
  also have "\<dots> = IP host # Fields_loop [] (Join (Hostnames host) [CHR 0x20])"
    using ip by (simp add: Fields_loop_space asciiSpace_def)
  finally show ?thesis
    using w by (simp add: Fields_def row_of_def Fields_loop_Join written_def)
qed

lemma Join_last_token:
  "names \<noteq> [] \<Longrightarrow> list_all isToken names \<Longrightarrow>
   \<exists>pre t. Join names [CHR 0x20] = pre @ t \<and> isToken t \<and> (pre = [] \<or> last pre = CHR 0x20)"
proof (induction names "[CHR 0x20]" rule: Join.induct)
  case 1
  then show ?case by simp
next
  case (2 x)
  then have "Join [x] [CHR 0x20] = [] @ x \<and> isToken x" by simp
  then show ?case by blast
next
  case (3 x y ys)
  then obtain pre t where "Join (y # ys) [CHR 0x20] = pre @ t" "isToken t"
    "pre = [] \<or> last pre = CHR 0x20"
    by auto
  then have "Join (x # y # ys) [CHR 0x20] = (x @ [CHR 0x20] @ pre) @ t \<and> isToken t \<and>
             last (x @ [CHR 0x20] @ pre) = CHR 0x20"
    by auto
  then show ?case by blast
qed

lemma TrimSpace_row_of: "written host \<Longrightarrow> TrimSpace (row_of host) = row_of host"
proof -
  assume w: "written host"
  then have ip: "IP host \<noteq> []" "spaceFree (IP host)" by (simp_all add: written_def isToken_def)
  then have "spaceWidth (IP host) = 0" by (cases "IP host") simp_all
  with ip have "spaceWidth (IP host @ CHR 0x09 # Join (Hostnames host) [CHR 0x20]) = 0"
    by (intro spaceWidth_append) simp_all
  then have left: "trimLeft (row_of host) = row_of host"
    by (simp add: row_of_def trimLeft_id)
  from w obtain pre t where j: "Join (Hostnames host) [CHR 0x20] = pre @ t" "isToken t"
    "pre = [] \<or> last pre = CHR 0x20"
    using Join_last_token [of "Hostnames host"] by (auto simp: written_def)
  have "lastSpaceWidth ((IP host @ CHR 0x09 # pre) @ t) = 0"
    using j(2,3) by (intro lastSpaceWidth_token) auto
  with j(1) have "lastSpaceWidth (row_of host) = 0"
    by (simp add: row_of_def)
  with left show ?thesis
    by (simp add: TrimSpace_def trimRight_id)
qed

lemma host_eq: "\<lparr>IP = IP host, Hostnames = Hostnames host\<rparr> = host"
  by simp

lemma classify_row_of: "written host \<Longrightarrow> classify_row (row_of host) = IHost host"
proof -
  assume w: "written host"
  then have "row_of host \<noteq> []" "\<not> HasPrefix_hash (row_of host)"
    by (auto simp: written_def isToken_def row_of_def HasPrefix_hash_def split: list.splits
             simp: Cons_eq_append_conv)
  moreover from w have "Hostnames host \<noteq> []" by (simp add: written_def)
  ultimately show ?thesis
    using w by (simp add: classify_row_def TrimSpace_row_of Fields_row_of)
qed

lemma row_of_no_newline: "written host \<Longrightarrow> CHR 0x0A \<notin> set (row_of host)"
proof
  assume w: "written host" and "CHR 0x0A \<in> set (row_of host)"
  then have "CHR 0x0A \<in> set (IP host) \<or> CHR 0x0A \<in> set (Join (Hostnames host) [CHR 0x20])"
    by (auto simp: row_of_def)
  then obtain t where t: "isToken t" "CHR 0x0A \<in> set t"
    using w set_Join [of "Hostnames host" "[CHR 0x20]"]
    by (auto simp: written_def list_all_iff)
  then have "\<not> asciiSpace (CHR 0x0A)"
    by (auto simp: isToken_def dest: spaceFree_no_ascii)
  then show False by (simp add: asciiSpace_def)
qed

text \<open>
  A row whose fields are separated by a space is rendered with a tab after the ip:
  the text changes on the way through \<^verbatim>\<open>ReadHosts\<close> and \<^verbatim>\<open>RenderHosts\<close>.
\<close>

theorem render_parse_rewrites_separators:
  "ReadHosts (Some (''10.0.0.1 a'' @ [CHR 0x0A])) =
     Some [IHost \<lparr>IP = ''10.0.0.1'', Hostnames = [''a'']\<rparr>, IString []] \<and>
   RenderHosts [IHost \<lparr>IP = ''10.0.0.1'', Hostnames = [''a'']\<rparr>, IString []] =
     ''10.0.0.1'' @ [CHR 0x09] @ ''a'' @ [CHR 0x0A] \<and>
   ''10.0.0.1'' @ [CHR 0x09] @ ''a'' @ [CHR 0x0A] \<noteq> ''10.0.0.1 a'' @ [CHR 0x0A]"
  by code_simp

text \<open>
  C1, amended. A text made of written rows only, each ended by a line feed, is read
  as the records of its rows followed by one empty string, and rendering these values
  gives the text back. Every text that ends with a line feed is read as a slice that
  ends with the empty string.
\<close>

theorem render_parse_of_written_rows:
  "(list_all written recs \<longrightarrow>
      ReadHosts (Some (text_of recs)) = Some (map IHost recs @ [IString []]) \<and>
      RenderHosts (map IHost recs @ [IString []]) = text_of recs) \<and>
   (\<exists>hosts. ReadHosts (Some (text @ [CHR 0x0A])) = Some (hosts @ [IString []]))"
proof (intro conjI impI)
  assume w: "list_all written recs"
  then have "\<forall>r \<in> set (map row_of recs). CHR 0x0A \<notin> set r"
    by (auto simp: list_all_iff row_of_no_newline)
  then have "Split_loop [] (concat (map (\<lambda>r. r @ [CHR 0x0A]) (map row_of recs))) =
             map row_of recs @ [[]]"
    by (rule Split_loop_rows)
  then have "Split_lines (text_of recs) = map row_of recs @ [[]]"
    by (simp add: Split_lines_def text_of_def comp_def)
  moreover have "map classify_row (map row_of recs) = map IHost recs"
    using w by (induction recs) (simp_all add: classify_row_of)
  moreover have "classify_row [] = IString []"
    by (simp add: classify_row_def TrimSpace_Nil)
  ultimately show "ReadHosts (Some (text_of recs)) = Some (map IHost recs @ [IString []])"
    by (simp add: ReadHosts_def ReadHosts_loop_eq)
next
  have "concat (map (render_entry \<circ> IHost) recs) = text_of recs"
    by (induction recs) (simp_all add: text_of_def render_entry_def row_of_def)
  then show "RenderHosts (map IHost recs @ [IString []]) = text_of recs"
    by (simp add: RenderHosts_eq render_entry_def)
next
  have "classify_row [] = IString []"
    by (simp add: classify_row_def TrimSpace_Nil)
  then have "ReadHosts (Some (text @ [CHR 0x0A])) =
        Some (map classify_row (Split_lines text) @ [IString []])"
    by (simp add: ReadHosts_def ReadHosts_loop_eq Split_lines_def Split_loop_final)
  then show "\<exists>hosts. ReadHosts (Some (text @ [CHR 0x0A])) = Some (hosts @ [IString []])"
    by blast
qed

lemma isToken_code: "isToken ''10.0.0.5''" "isToken ''foo.test''" "isToken ''bar.test''"
  by code_simp+

theorem render_parse_of_written_rows_witness:
  "list_all written [\<lparr>IP = ''10.0.0.5'', Hostnames = [''foo.test'', ''bar.test'']\<rparr>] \<and>
   text_of [\<lparr>IP = ''10.0.0.5'', Hostnames = [''foo.test'', ''bar.test'']\<rparr>] =
     ''10.0.0.5'' @ [CHR 0x09] @ ''foo.test bar.test'' @ [CHR 0x0A] \<and>
   ReadHosts (Some (text_of [\<lparr>IP = ''10.0.0.5'', Hostnames = [''foo.test'', ''bar.test'']\<rparr>])) =
     Some (map IHost [\<lparr>IP = ''10.0.0.5'', Hostnames = [''foo.test'', ''bar.test'']\<rparr>] @ [IString []]) \<and>
   RenderHosts (map IHost [\<lparr>IP = ''10.0.0.5'', Hostnames = [''foo.test'', ''bar.test'']\<rparr>] @ [IString []]) =
     text_of [\<lparr>IP = ''10.0.0.5'', Hostnames = [''foo.test'', ''bar.test'']\<rparr>]"
proof -
  have w: "list_all written [\<lparr>IP = ''10.0.0.5'', Hostnames = [''foo.test'', ''bar.test'']\<rparr>]"
    by (simp add: written_def isToken_code HasPrefix_hash_def)
  have t: "text_of [\<lparr>IP = ''10.0.0.5'', Hostnames = [''foo.test'', ''bar.test'']\<rparr>] =
     ''10.0.0.5'' @ [CHR 0x09] @ ''foo.test bar.test'' @ [CHR 0x0A]"
    by (simp add: text_of_def row_of_def)
  from w render_parse_of_written_rows
         [of "[\<lparr>IP = ''10.0.0.5'', Hostnames = [''foo.test'', ''bar.test'']\<rparr>]" "[]"]
  show ?thesis using t by blast
qed

subsection \<open>cmdResolve\<close>

lemma hostname_loop_iff:
  "hostname_loop hostnames searchHostname \<longleftrightarrow> searchHostname \<in> set hostnames"
  by (induction hostnames) auto

lemma cmdResolve_none:
  "list_all (\<lambda>e. \<not> hasHostname name e) hosts \<Longrightarrow> cmdResolve hosts name = []"
  by (induction hosts) (auto simp: hasHostname_def hostname_loop_iff split: iface.splits)

lemma cmdResolve_append:
  "list_all (\<lambda>e. \<not> hasHostname name e) pre \<Longrightarrow>
   cmdResolve (pre @ rest) name = cmdResolve rest name"
  by (induction pre) (auto simp: hasHostname_def hostname_loop_iff split: iface.splits)

text \<open>
  C7. \<^verbatim>\<open>resolve\<close> prints the ip (and a line feed) of the first \<^verbatim>\<open>Host\<close> in the slice that
  lists the name: when no value before \<open>host\<close> lists the name and \<open>host\<close> does, the
  output is the ip of \<open>host\<close>, whatever follows. When no \<^verbatim>\<open>Host\<close> lists the name, nothing
  is printed; the command has no error path.
\<close>

theorem cmdResolve_first_match:
  "(list_all (\<lambda>e. \<not> hasHostname name e) pre \<and> name \<in> set (Hostnames host) \<longrightarrow>
      cmdResolve (pre @ IHost host # post) name = IP host @ [CHR 0x0A]) \<and>
   (list_all (\<lambda>e. \<not> hasHostname name e) hosts \<longrightarrow> cmdResolve hosts name = [])"
  by (simp add: cmdResolve_none cmdResolve_append hostname_loop_iff)

theorem cmdResolve_first_match_witness:
  "cmdResolve
     ([IString ''# c'', IHost \<lparr>IP = ''10.0.0.1'', Hostnames = [''a'']\<rparr>] @
      IHost \<lparr>IP = ''10.0.0.2'', Hostnames = [''a'', ''h'']\<rparr> #
      [IHost \<lparr>IP = ''10.0.0.3'', Hostnames = [''h'']\<rparr>]) ''h'' = ''10.0.0.2'' @ [CHR 0x0A] \<and>
   cmdResolve [IString ''# c'', IHost \<lparr>IP = ''10.0.0.1'', Hostnames = [''a'']\<rparr>] ''h'' = []"
  using cmdResolve_first_match
          [of "''h''" "[IString ''# c'', IHost \<lparr>IP = ''10.0.0.1'', Hostnames = [''a'']\<rparr>]"
              "\<lparr>IP = ''10.0.0.2'', Hostnames = [''a'', ''h'']\<rparr>"
              "[IHost \<lparr>IP = ''10.0.0.3'', Hostnames = [''h'']\<rparr>]"
              "[IString ''# c'', IHost \<lparr>IP = ''10.0.0.1'', Hostnames = [''a'']\<rparr>]"]
  by (simp add: hasHostname_def)

subsection \<open>cmdAddHost\<close>

lemma addHost_loop_none:
  "list_all (\<lambda>e. \<not> hasIP ip e) (drop i hosts) \<Longrightarrow>
   addHost_loop i ip hostnames hosts = Inr (hosts, False)"
proof (induction "length hosts - i" arbitrary: i)
  case 0
  then show ?case by (subst addHost_loop.simps) simp
next
  case (Suc n)
  then have lt: "i < length hosts" by simp
  then have d: "drop i hosts = hosts ! i # drop (Suc i) hosts"
    by (simp add: Cons_nth_drop_Suc)
  with Suc.prems have no: "\<not> hasIP ip (hosts ! i)"
    and rest: "list_all (\<lambda>e. \<not> hasIP ip e) (drop (Suc i) hosts)"
    by simp_all
  have IH: "addHost_loop (Suc i) ip hostnames hosts = Inr (hosts, False)"
    using Suc.hyps(2) rest by (intro Suc.hyps(1)) auto
  from no lt IH show ?case
    by (subst addHost_loop.simps) (auto simp: hasIP_def split: iface.splits)
qed

lemma addHost_loop_found:
  "i \<le> length pre \<Longrightarrow> list_all (\<lambda>e. \<not> hasIP ip e) (drop i pre) \<Longrightarrow> IP host = ip \<Longrightarrow>
   addHost_loop i ip hostnames (pre @ IHost host # post) =
     Inr (pre @ IHost (host\<lparr>Hostnames := first_occurrences (Hostnames host @ hostnames)\<rparr>) # post,
          True)"
proof (induction "length pre - i" arbitrary: i)
  case 0
  then have i: "i = length pre" by simp
  with 0 show ?case
    by (subst addHost_loop.simps) (simp add: uniqueStrings_eq)
next
  case (Suc n)
  then have lt: "i < length pre" by simp
  then have d: "drop i pre = pre ! i # drop (Suc i) pre"
    by (simp add: Cons_nth_drop_Suc)
  with Suc.prems have no: "\<not> hasIP ip (pre ! i)"
    and rest: "list_all (\<lambda>e. \<not> hasIP ip e) (drop (Suc i) pre)"
    by simp_all
  have IH: "addHost_loop (Suc i) ip hostnames (pre @ IHost host # post) =
     Inr (pre @ IHost (host\<lparr>Hostnames := first_occurrences (Hostnames host @ hostnames)\<rparr>) # post,
          True)"
    using Suc.hyps(2) lt rest Suc.prems(3) by (intro Suc.hyps(1)) auto
  from no lt IH show ?case
    by (subst addHost_loop.simps) (auto simp: nth_append hasIP_def split: iface.splits)
qed

lemma cmdAddHost_found:
  "list_all (\<lambda>e. \<not> hasIP ip e) pre \<Longrightarrow> IP host = ip \<Longrightarrow>
   cmdAddHost (pre @ IHost host # post) ip hostnames =
     Inr (pre @ IHost (host\<lparr>Hostnames := first_occurrences (Hostnames host @ hostnames)\<rparr>) # post)"
  by (simp add: cmdAddHost_def addHost_loop_found)

lemma cmdAddHost_none:
  "list_all (\<lambda>e. \<not> hasIP ip e) hosts \<Longrightarrow>
   cmdAddHost hosts ip hostnames =
     Inr (hosts @ [IHost \<lparr>IP = ip, Hostnames = first_occurrences hostnames\<rparr>])"
  by (simp add: cmdAddHost_def addHost_loop_none uniqueStrings_eq)

text \<open>
  C4. \<^verbatim>\<open>add\<close> changes the first \<^verbatim>\<open>Host\<close> with the given ip, and only that value: when no
  value of \<open>pre\<close> is a \<^verbatim>\<open>Host\<close> with the ip and \<open>host\<close> is one, its hostnames become the
  existing hostnames followed by the new ones, each name kept at its first occurrence;
  \<open>pre\<close> and \<open>post\<close> (where later records with the same ip stand) stay as they are.
  When no \<^verbatim>\<open>Host\<close> has the ip, one \<^verbatim>\<open>Host\<close> with the ip and the new hostnames, each kept
  at its first occurrence, is appended. The last conjunct says what \<open>first_occurrences\<close>
  keeps: the element at index \<open>i\<close> when it does not occur before \<open>i\<close>.
\<close>

theorem cmdAddHost_merges_or_appends:
  "(list_all (\<lambda>e. \<not> hasIP ip e) pre \<and> IP host = ip \<longrightarrow>
      cmdAddHost (pre @ IHost host # post) ip hostnames =
        Inr (pre @
             IHost (host\<lparr>Hostnames := first_occurrences (Hostnames host @ hostnames)\<rparr>) # post)) \<and>
   (list_all (\<lambda>e. \<not> hasIP ip e) hosts \<longrightarrow>
      cmdAddHost hosts ip hostnames =
        Inr (hosts @ [IHost \<lparr>IP = ip, Hostnames = first_occurrences hostnames\<rparr>])) \<and>
   first_occurrences names =
     map (\<lambda>i. names ! i) (filter (\<lambda>i. names ! i \<notin> set (take i names)) [0..<length names])"
  using first_occurrences_nth [of names]
  by (simp add: cmdAddHost_found cmdAddHost_none)

theorem cmdAddHost_merges_or_appends_witness:
  "cmdAddHost
     ([IString ''# c'', IHost \<lparr>IP = ''10.0.0.1'', Hostnames = [''x'']\<rparr>] @
      IHost \<lparr>IP = ''10.0.0.5'', Hostnames = [''foo'', ''bar'']\<rparr> #
      [IHost \<lparr>IP = ''10.0.0.5'', Hostnames = [''late'']\<rparr>])
     ''10.0.0.5'' [''baz'', ''foo'', ''baz''] =
   Inr ([IString ''# c'', IHost \<lparr>IP = ''10.0.0.1'', Hostnames = [''x'']\<rparr>] @
        IHost \<lparr>IP = ''10.0.0.5'', Hostnames = [''foo'', ''bar'', ''baz'']\<rparr> #
        [IHost \<lparr>IP = ''10.0.0.5'', Hostnames = [''late'']\<rparr>]) \<and>
   cmdAddHost [IString ''# c'', IHost \<lparr>IP = ''10.0.0.1'', Hostnames = [''x'']\<rparr>]
     ''10.0.0.5'' [''baz'', ''foo'', ''baz''] =
   Inr ([IString ''# c'', IHost \<lparr>IP = ''10.0.0.1'', Hostnames = [''x'']\<rparr>] @
        [IHost \<lparr>IP = ''10.0.0.5'', Hostnames = [''baz'', ''foo'']\<rparr>])"
  using cmdAddHost_merges_or_appends
          [of "''10.0.0.5''" "[IString ''# c'', IHost \<lparr>IP = ''10.0.0.1'', Hostnames = [''x'']\<rparr>]"
              "\<lparr>IP = ''10.0.0.5'', Hostnames = [''foo'', ''bar'']\<rparr>"
              "[IHost \<lparr>IP = ''10.0.0.5'', Hostnames = [''late'']\<rparr>]"
              "[''baz'', ''foo'', ''baz'']"
              "[IString ''# c'', IHost \<lparr>IP = ''10.0.0.1'', Hostnames = [''x'']\<rparr>]"
              "[]"]
  by (simp add: hasIP_def)

text \<open>
  C5. \<^verbatim>\<open>add\<close> with the same ip and hostnames a second time changes nothing: the first
  run returns a slice, and the second run on that slice returns it again.
\<close>

theorem cmdAddHost_idempotent:
  "\<exists>hosts'. cmdAddHost hosts ip hostnames = Inr hosts' \<and>
            cmdAddHost hosts' ip hostnames = Inr hosts'"
proof (cases "list_all (\<lambda>e. \<not> hasIP ip e) hosts")
  case True
  let ?new = "\<lparr>IP = ip, Hostnames = first_occurrences hostnames\<rparr>"
  have one: "cmdAddHost hosts ip hostnames = Inr (hosts @ [IHost ?new])"
    using True by (rule cmdAddHost_none)
  have "cmdAddHost (hosts @ IHost ?new # []) ip hostnames =
        Inr (hosts @ IHost (?new\<lparr>Hostnames := first_occurrences (Hostnames ?new @ hostnames)\<rparr>) # [])"
    using True by (intro cmdAddHost_found) simp_all
  moreover have "first_occurrences (first_occurrences hostnames @ hostnames) = first_occurrences hostnames"
    using first_occurrences_again [of "[]" hostnames] by simp
  ultimately have "cmdAddHost (hosts @ [IHost ?new]) ip hostnames = Inr (hosts @ [IHost ?new])"
    by simp
  with one show ?thesis by blast
next
  case False
  then have "\<exists>e \<in> set hosts. hasIP ip e" by (simp add: list_all_iff)
  then obtain pre e post where split: "hosts = pre @ e # post" "hasIP ip e"
    "\<forall>y \<in> set pre. \<not> hasIP ip y"
    using split_list_first_prop [of hosts "hasIP ip"] by blast
  then obtain host where e: "e = IHost host" "IP host = ip"
    by (auto simp: hasIP_def split: iface.splits)
  from split have pre: "list_all (\<lambda>e. \<not> hasIP ip e) pre" by (simp add: list_all_iff)
  let ?h = "host\<lparr>Hostnames := first_occurrences (Hostnames host @ hostnames)\<rparr>"
  have one: "cmdAddHost hosts ip hostnames = Inr (pre @ IHost ?h # post)"
    unfolding split(1) e(1) using pre e(2) by (rule cmdAddHost_found)
  have "cmdAddHost (pre @ IHost ?h # post) ip hostnames =
        Inr (pre @ IHost (?h\<lparr>Hostnames := first_occurrences (Hostnames ?h @ hostnames)\<rparr>) # post)"
    using pre e(2) by (intro cmdAddHost_found) simp_all
  then have "cmdAddHost (pre @ IHost ?h # post) ip hostnames = Inr (pre @ IHost ?h # post)"
    by (simp add: first_occurrences_again)
  with one show ?thesis by blast
qed

theorem cmdAddHost_idempotent_witness:
  "cmdAddHost [IHost \<lparr>IP = ''10.0.0.5'', Hostnames = [''foo'']\<rparr>] ''10.0.0.5'' [''bar'', ''foo''] =
     Inr [IHost \<lparr>IP = ''10.0.0.5'', Hostnames = [''foo'', ''bar'']\<rparr>] \<and>
   cmdAddHost [IHost \<lparr>IP = ''10.0.0.5'', Hostnames = [''foo'', ''bar'']\<rparr>] ''10.0.0.5'' [''bar'', ''foo''] =
     Inr [IHost \<lparr>IP = ''10.0.0.5'', Hostnames = [''foo'', ''bar'']\<rparr>]"
proof -
  have one: "cmdAddHost [IHost \<lparr>IP = ''10.0.0.5'', Hostnames = [''foo'']\<rparr>] ''10.0.0.5'' [''bar'', ''foo''] =
     Inr [IHost \<lparr>IP = ''10.0.0.5'', Hostnames = [''foo'', ''bar'']\<rparr>]"
    by code_simp
  with cmdAddHost_idempotent
         [of "[IHost \<lparr>IP = ''10.0.0.5'', Hostnames = [''foo'']\<rparr>]" "''10.0.0.5''" "[''bar'', ''foo'']"]
  show ?thesis by auto
qed

subsection \<open>cmdRemoveIP\<close>

lemma rmip_loop_eq:
  "rmip_loop (length pre) ip (pre @ suf) = Inr (foldr (rmip_step ip) pre suf)"
proof (induction pre arbitrary: suf rule: rev_induct)
  case Nil
  then show ?case by simp
next
  case (snoc e pre)
  have "rmip_loop (Suc (length pre)) ip (pre @ e # suf) =
        (if hasIP ip e then rmip_loop (length pre) ip (pre @ [ISlice suf])
         else rmip_loop (length pre) ip (pre @ e # suf))"
    by (auto simp: hasIP_def split: iface.splits)
  then show ?case
    by (simp add: snoc.IH rmip_step_def)
qed

lemma cmdRemoveIP_eq: "cmdRemoveIP hosts ip = Inr (foldr (rmip_step ip) hosts [])"
  using rmip_loop_eq [of hosts ip "[]"] by (simp add: cmdRemoveIP_def)

text \<open>
  C2. On the file with the rows \<open># c\<close>, \<open>10.0.0.1 a\<close> and \<open>10.0.0.2 b\<close>, \<^verbatim>\<open>rmip 10.0.0.1\<close>
  leaves the comment and one slice value that holds the record of 10.0.0.2 and the
  last empty row; \<^verbatim>\<open>RenderHosts\<close> writes nothing for the slice value, so the file
  written is the comment alone.
\<close>

theorem cmdRemoveIP_drops_following_entries:
  "ReadHosts (Some (''# c'' @ [CHR 0x0A] @ ''10.0.0.1 a'' @ [CHR 0x0A] @ ''10.0.0.2 b'' @ [CHR 0x0A])) =
     Some [IString ''# c'', IHost \<lparr>IP = ''10.0.0.1'', Hostnames = [''a'']\<rparr>,
           IHost \<lparr>IP = ''10.0.0.2'', Hostnames = [''b'']\<rparr>, IString []] \<and>
   cmdRemoveIP [IString ''# c'', IHost \<lparr>IP = ''10.0.0.1'', Hostnames = [''a'']\<rparr>,
                IHost \<lparr>IP = ''10.0.0.2'', Hostnames = [''b'']\<rparr>, IString []] ''10.0.0.1'' =
     Inr [IString ''# c'', ISlice [IHost \<lparr>IP = ''10.0.0.2'', Hostnames = [''b'']\<rparr>, IString []]] \<and>
   RenderHosts [IString ''# c'', ISlice [IHost \<lparr>IP = ''10.0.0.2'', Hostnames = [''b'']\<rparr>, IString []]] =
     ''# c''"
  by code_simp

subsection \<open>cmdRemoveHost\<close>

lemma rmhost_loop_eq:
  "rmhost_loop (length pre) hostnames (pre @ suf) =
   Inr (concat (map (rmhost_entry hostnames) pre) @ suf)"
proof (induction pre arbitrary: suf rule: rev_induct)
  case Nil
  then show ?case by simp
next
  case (snoc e pre)
  have ih: "rmhost_loop (length pre) hostnames (pre @ suf') =
        Inr (concat (map (rmhost_entry hostnames) pre) @ suf')" for suf'
    by (rule snoc.IH)
  have "rmhost_loop (Suc (length pre)) hostnames (pre @ e # suf) =
        rmhost_loop (length pre) hostnames (pre @ rmhost_entry hostnames e @ suf)"
    by (cases e) (simp_all add: rmhost_entry_def Let_def)
  then show ?case
    by (simp add: ih)
qed

lemma cmdRemoveHost_eq:
  "cmdRemoveHost hosts hostnames = Inr (concat (map (rmhost_entry hostnames) hosts))"
  using rmhost_loop_eq [of hosts hostnames "[]"] by (simp add: cmdRemoveHost_def)

subsection \<open>The hostnames of the records\<close>

lemma all_hostnames_append [simp]:
  "all_hostnames P (xs @ ys) \<longleftrightarrow> all_hostnames P xs \<and> all_hostnames P ys"
  by (simp add: all_hostnames_def)

lemma all_hostnames_Cons_IHost [simp]:
  "all_hostnames P (IHost host # xs) \<longleftrightarrow> P (Hostnames host) \<and> all_hostnames P xs"
  by (simp add: all_hostnames_def)

lemma all_hostnames_Nil [simp]: "all_hostnames P []"
  by (simp add: all_hostnames_def)

lemma all_hostnames_other [simp]:
  "all_hostnames P (IString v # xs) \<longleftrightarrow> all_hostnames P xs"
  "all_hostnames P (ISlice vs # xs) \<longleftrightarrow> all_hostnames P xs"
  by (simp_all add: all_hostnames_def)

lemma all_hostnames_rmip:
  "all_hostnames P pre \<Longrightarrow> all_hostnames P suf \<Longrightarrow> all_hostnames P (foldr (rmip_step ip) pre suf)"
  by (induction pre) (auto simp: rmip_step_def all_hostnames_def)

lemma all_hostnames_cmdRemoveIP:
  "all_hostnames P hosts \<Longrightarrow>
   \<exists>hosts'. cmdRemoveIP hosts ip = Inr hosts' \<and> all_hostnames P hosts'"
  by (simp add: cmdRemoveIP_eq all_hostnames_rmip)

lemma all_hostnames_cmdAddHost:
  assumes "all_hostnames P hosts"
    and "\<And>old. P old \<Longrightarrow> P (first_occurrences (old @ hostnames))"
    and "P (first_occurrences hostnames)"
  shows "\<exists>hosts'. cmdAddHost hosts ip hostnames = Inr hosts' \<and> all_hostnames P hosts'"
proof (cases "list_all (\<lambda>e. \<not> hasIP ip e) hosts")
  case True
  with assms show ?thesis by (simp add: cmdAddHost_none)
next
  case False
  then have "\<exists>e \<in> set hosts. hasIP ip e" by (simp add: list_all_iff)
  then obtain pre e post where split: "hosts = pre @ e # post" "hasIP ip e"
    "\<forall>y \<in> set pre. \<not> hasIP ip y"
    using split_list_first_prop [of hosts "hasIP ip"] by blast
  then obtain host where e: "e = IHost host" "IP host = ip"
    by (auto simp: hasIP_def split: iface.splits)
  from split have pre: "list_all (\<lambda>e. \<not> hasIP ip e) pre" by (simp add: list_all_iff)
  from assms(1,2) show ?thesis
    unfolding split(1) e(1) by (simp add: cmdAddHost_found [OF pre e(2)])
qed

lemma all_hostnames_rmhost_nonempty:
  "all_hostnames (\<lambda>names. names \<noteq> []) (concat (map (rmhost_entry hostnames) hosts))"
  by (induction hosts) (auto simp: rmhost_entry_def Let_def split: iface.splits)

lemma all_hostnames_rmhost_distinct:
  "all_hostnames distinct hosts \<Longrightarrow>
   all_hostnames distinct (concat (map (rmhost_entry hostnames) hosts))"
  by (induction hosts)
     (auto simp: rmhost_entry_def Let_def distinct_removeHostnames_loop split: iface.splits)

lemma all_hostnames_classify: "all_hostnames (\<lambda>names. names \<noteq> []) (map classify_row rows)"
proof (induction rows)
  case Nil
  then show ?case by simp
next
  case (Cons row rows)
  have "2 \<le> length fs \<Longrightarrow> tl fs \<noteq> []" for fs :: "string list"
    by (cases fs) auto
  with Cons show ?case
    by (auto simp: classify_row_def Let_def not_less)
qed

text \<open>
  C6. No \<^verbatim>\<open>Host\<close> in the slice has an empty list of hostnames: this holds of what
  \<^verbatim>\<open>ReadHosts\<close> reads, \<^verbatim>\<open>add\<close> (with at least one hostname) and \<^verbatim>\<open>rmip\<close> keep it, and it
  holds of what \<^verbatim>\<open>rmhost\<close> returns. When the names to remove leave a \<^verbatim>\<open>Host\<close> without
  hostnames, \<^verbatim>\<open>rmhost\<close> returns what it returns for the slice without that value.
\<close>

theorem records_never_empty:
  "(\<exists>hosts. ReadHosts (Some text) = Some hosts \<and> all_hostnames (\<lambda>names. names \<noteq> []) hosts) \<and>
   (all_hostnames (\<lambda>names. names \<noteq> []) hosts \<and> added \<noteq> [] \<longrightarrow>
      (\<exists>hosts'. cmdAddHost hosts ip added = Inr hosts' \<and>
                 all_hostnames (\<lambda>names. names \<noteq> []) hosts')) \<and>
   (all_hostnames (\<lambda>names. names \<noteq> []) hosts \<longrightarrow>
      (\<exists>hosts'. cmdRemoveIP hosts ip = Inr hosts' \<and>
                 all_hostnames (\<lambda>names. names \<noteq> []) hosts')) \<and>
   (\<exists>hosts'. cmdRemoveHost hosts removed = Inr hosts' \<and>
              all_hostnames (\<lambda>names. names \<noteq> []) hosts') \<and>
   (removeHostnames_loop (Hostnames host) removed = [] \<longrightarrow>
      cmdRemoveHost (pre @ IHost host # post) removed = cmdRemoveHost (pre @ post) removed)"
proof (intro conjI impI)
  show "\<exists>hosts. ReadHosts (Some text) = Some hosts \<and> all_hostnames (\<lambda>names. names \<noteq> []) hosts"
    by (simp add: ReadHosts_def ReadHosts_loop_eq all_hostnames_classify)
next
  assume "all_hostnames (\<lambda>names. names \<noteq> []) hosts \<and> added \<noteq> []"
  then have a: "all_hostnames (\<lambda>names. names \<noteq> []) hosts" and b: "added \<noteq> []"
    by simp_all
  have ne: "first_occurrences xs \<noteq> []" if "xs \<noteq> []" for xs :: "string list"
    using that by (cases xs) simp_all
  show "\<exists>hosts'. cmdAddHost hosts ip added = Inr hosts' \<and>
                 all_hostnames (\<lambda>names. names \<noteq> []) hosts'"
    using a b by (intro all_hostnames_cmdAddHost) (simp_all add: ne)
next
  assume "all_hostnames (\<lambda>names. names \<noteq> []) hosts"
  then show "\<exists>hosts'. cmdRemoveIP hosts ip = Inr hosts' \<and>
                 all_hostnames (\<lambda>names. names \<noteq> []) hosts'"
    by (rule all_hostnames_cmdRemoveIP)
next
  show "\<exists>hosts'. cmdRemoveHost hosts removed = Inr hosts' \<and>
              all_hostnames (\<lambda>names. names \<noteq> []) hosts'"
    by (simp add: cmdRemoveHost_eq all_hostnames_rmhost_nonempty)
next
  assume "removeHostnames_loop (Hostnames host) removed = []"
  then show "cmdRemoveHost (pre @ IHost host # post) removed = cmdRemoveHost (pre @ post) removed"
    by (simp add: cmdRemoveHost_eq rmhost_entry_def)
qed

theorem records_never_empty_witness:
  "all_hostnames (\<lambda>names. names \<noteq> []) [IString ''# c'', IHost \<lparr>IP = ''10.0.0.5'', Hostnames = [''x'']\<rparr>] \<and>
   (\<exists>hosts'. cmdAddHost [IString ''# c'', IHost \<lparr>IP = ''10.0.0.5'', Hostnames = [''x'']\<rparr>]
                ''10.0.0.5'' [''y''] = Inr hosts' \<and>
              all_hostnames (\<lambda>names. names \<noteq> []) hosts') \<and>
   (\<exists>hosts'. cmdRemoveIP [IString ''# c'', IHost \<lparr>IP = ''10.0.0.5'', Hostnames = [''x'']\<rparr>]
                ''10.0.0.5'' = Inr hosts' \<and>
              all_hostnames (\<lambda>names. names \<noteq> []) hosts') \<and>
   removeHostnames_loop (Hostnames \<lparr>IP = ''10.0.0.5'', Hostnames = [''x'']\<rparr>) [''x''] = [] \<and>
   cmdRemoveHost ([IString ''# c''] @ IHost \<lparr>IP = ''10.0.0.5'', Hostnames = [''x'']\<rparr> # []) [''x''] =
   cmdRemoveHost ([IString ''# c''] @ []) [''x'']"
proof -
  have a: "all_hostnames (\<lambda>names. names \<noteq> [])
             [IString ''# c'', IHost \<lparr>IP = ''10.0.0.5'', Hostnames = [''x'']\<rparr>]"
    by (simp add: all_hostnames_def)
  have b: "removeHostnames_loop (Hostnames \<lparr>IP = ''10.0.0.5'', Hostnames = [''x'']\<rparr>) [''x''] = []"
    by (simp add: removeHostname_def)
  from a b records_never_empty
         [of "[]" "[IString ''# c'', IHost \<lparr>IP = ''10.0.0.5'', Hostnames = [''x'']\<rparr>]"
             "[''y'']" "''10.0.0.5''" "[''x'']" "\<lparr>IP = ''10.0.0.5'', Hostnames = [''x'']\<rparr>"
             "[IString ''# c'']" "[]"]
  show ?thesis by simp
qed

text \<open>
  \<^verbatim>\<open>ReadHosts\<close> does not call \<^verbatim>\<open>uniqueStrings\<close>: a row that repeats a hostname gives a
  \<^verbatim>\<open>Host\<close> that repeats it.
\<close>

theorem ReadHosts_keeps_duplicates:
  "ReadHosts (Some ''10.0.0.5 foo foo'') =
     Some [IHost \<lparr>IP = ''10.0.0.5'', Hostnames = [''foo'', ''foo'']\<rparr>] \<and>
   \<not> all_hostnames distinct [IHost \<lparr>IP = ''10.0.0.5'', Hostnames = [''foo'', ''foo'']\<rparr>]"
proof -
  have "ReadHosts (Some ''10.0.0.5 foo foo'') =
     Some [IHost \<lparr>IP = ''10.0.0.5'', Hostnames = [''foo'', ''foo'']\<rparr>]"
    by code_simp
  then show ?thesis by (simp add: all_hostnames_def)
qed

text \<open>
  C9, amended. \<^verbatim>\<open>add\<close> leaves the \<^verbatim>\<open>Host\<close> it updates or appends with pairwise distinct
  hostnames, in the order of their first occurrences. \<^verbatim>\<open>add\<close>, \<^verbatim>\<open>rmip\<close> and \<^verbatim>\<open>rmhost\<close>
  keep the hostnames of every \<^verbatim>\<open>Host\<close> pairwise distinct when they were so before, and
  \<^verbatim>\<open>rmhost\<close> leaves the remaining hostnames of a \<^verbatim>\<open>Host\<close> in their order.
\<close>

theorem hostnames_distinct_established_by_add_and_kept:
  "(list_all (\<lambda>e. \<not> hasIP ip e) pre \<and> IP host = ip \<longrightarrow>
      cmdAddHost (pre @ IHost host # post) ip added =
        Inr (pre @ IHost (host\<lparr>Hostnames := first_occurrences (Hostnames host @ added)\<rparr>) # post) \<and>
      distinct (first_occurrences (Hostnames host @ added))) \<and>
   (list_all (\<lambda>e. \<not> hasIP ip e) hosts \<longrightarrow>
      cmdAddHost hosts ip added =
        Inr (hosts @ [IHost \<lparr>IP = ip, Hostnames = first_occurrences added\<rparr>]) \<and>
      distinct (first_occurrences added)) \<and>
   (all_hostnames distinct hosts \<longrightarrow>
      (\<exists>hosts'. cmdAddHost hosts ip added = Inr hosts' \<and> all_hostnames distinct hosts')) \<and>
   (all_hostnames distinct hosts \<longrightarrow>
      (\<exists>hosts'. cmdRemoveIP hosts ip = Inr hosts' \<and> all_hostnames distinct hosts')) \<and>
   (all_hostnames distinct hosts \<longrightarrow>
      (\<exists>hosts'. cmdRemoveHost hosts removed = Inr hosts' \<and> all_hostnames distinct hosts')) \<and>
   subseq (removeHostnames_loop names removed) names"
proof (intro conjI impI)
  assume "list_all (\<lambda>e. \<not> hasIP ip e) pre \<and> IP host = ip"
  then show "cmdAddHost (pre @ IHost host # post) ip added =
        Inr (pre @ IHost (host\<lparr>Hostnames := first_occurrences (Hostnames host @ added)\<rparr>) # post)"
    by (simp add: cmdAddHost_found)
next
  show "distinct (first_occurrences (Hostnames host @ added))"
    by (rule distinct_first_occurrences)
next
  assume "list_all (\<lambda>e. \<not> hasIP ip e) hosts"
  then show "cmdAddHost hosts ip added =
        Inr (hosts @ [IHost \<lparr>IP = ip, Hostnames = first_occurrences added\<rparr>])"
    by (rule cmdAddHost_none)
next
  show "distinct (first_occurrences added)"
    by (rule distinct_first_occurrences)
next
  assume "all_hostnames distinct hosts"
  then show "\<exists>hosts'. cmdAddHost hosts ip added = Inr hosts' \<and> all_hostnames distinct hosts'"
    by (intro all_hostnames_cmdAddHost) simp_all
next
  assume "all_hostnames distinct hosts"
  then show "\<exists>hosts'. cmdRemoveIP hosts ip = Inr hosts' \<and> all_hostnames distinct hosts'"
    by (rule all_hostnames_cmdRemoveIP)
next
  assume "all_hostnames distinct hosts"
  then show "\<exists>hosts'. cmdRemoveHost hosts removed = Inr hosts' \<and> all_hostnames distinct hosts'"
    by (simp add: cmdRemoveHost_eq all_hostnames_rmhost_distinct)
next
  show "subseq (removeHostnames_loop names removed) names"
    by (rule subseq_removeHostnames_loop)
qed

theorem hostnames_distinct_established_by_add_and_kept_witness:
  "cmdAddHost ([] @ IHost \<lparr>IP = ''10.0.0.5'', Hostnames = [''foo'', ''foo'']\<rparr> # []) ''10.0.0.5'' [''bar''] =
     Inr ([] @ IHost \<lparr>IP = ''10.0.0.5'', Hostnames = [''foo'', ''bar'']\<rparr> # []) \<and>
   cmdAddHost [IString ''# c''] ''10.0.0.5'' [''bar'', ''bar''] =
     Inr ([IString ''# c''] @ [IHost \<lparr>IP = ''10.0.0.5'', Hostnames = [''bar'']\<rparr>]) \<and>
   all_hostnames distinct [IHost \<lparr>IP = ''10.0.0.5'', Hostnames = [''foo'', ''bar'']\<rparr>] \<and>
   (\<exists>hosts'. cmdAddHost [IHost \<lparr>IP = ''10.0.0.5'', Hostnames = [''foo'', ''bar'']\<rparr>]
                ''10.0.0.7'' [''baz''] = Inr hosts' \<and> all_hostnames distinct hosts') \<and>
   (\<exists>hosts'. cmdRemoveIP [IHost \<lparr>IP = ''10.0.0.5'', Hostnames = [''foo'', ''bar'']\<rparr>]
                ''10.0.0.7'' = Inr hosts' \<and> all_hostnames distinct hosts') \<and>
   (\<exists>hosts'. cmdRemoveHost [IHost \<lparr>IP = ''10.0.0.5'', Hostnames = [''foo'', ''bar'']\<rparr>]
                [''foo''] = Inr hosts' \<and> all_hostnames distinct hosts')"
proof -
  have d: "all_hostnames distinct [IHost \<lparr>IP = ''10.0.0.5'', Hostnames = [''foo'', ''bar'']\<rparr>]"
    by (simp add: all_hostnames_def)
  from hostnames_distinct_established_by_add_and_kept
         [where ip = "''10.0.0.5''" and pre = "[]" and post = "[]" and added = "[''bar'']"
            and host = "\<lparr>IP = ''10.0.0.5'', Hostnames = [''foo'', ''foo'']\<rparr>"]
  have one: "cmdAddHost ([] @ IHost \<lparr>IP = ''10.0.0.5'', Hostnames = [''foo'', ''foo'']\<rparr> # [])
               ''10.0.0.5'' [''bar''] =
             Inr ([] @ IHost \<lparr>IP = ''10.0.0.5'', Hostnames = [''foo'', ''bar'']\<rparr> # [])"
    by simp
  from hostnames_distinct_established_by_add_and_kept
         [where ip = "''10.0.0.5''" and hosts = "[IString ''# c'']" and added = "[''bar'', ''bar'']"]
  have two: "cmdAddHost [IString ''# c''] ''10.0.0.5'' [''bar'', ''bar''] =
     Inr ([IString ''# c''] @ [IHost \<lparr>IP = ''10.0.0.5'', Hostnames = [''bar'']\<rparr>])"
    by (simp add: hasIP_def)
  from d hostnames_distinct_established_by_add_and_kept
         [where ip = "''10.0.0.7''" and added = "[''baz'']" and removed = "[''foo'']"
            and hosts = "[IHost \<lparr>IP = ''10.0.0.5'', Hostnames = [''foo'', ''bar'']\<rparr>]"]
  have three: "(\<exists>hosts'. cmdAddHost [IHost \<lparr>IP = ''10.0.0.5'', Hostnames = [''foo'', ''bar'']\<rparr>]
                ''10.0.0.7'' [''baz''] = Inr hosts' \<and> all_hostnames distinct hosts') \<and>
   (\<exists>hosts'. cmdRemoveIP [IHost \<lparr>IP = ''10.0.0.5'', Hostnames = [''foo'', ''bar'']\<rparr>]
                ''10.0.0.7'' = Inr hosts' \<and> all_hostnames distinct hosts') \<and>
   (\<exists>hosts'. cmdRemoveHost [IHost \<lparr>IP = ''10.0.0.5'', Hostnames = [''foo'', ''bar'']\<rparr>]
                [''foo''] = Inr hosts' \<and> all_hostnames distinct hosts')"
    by blast
  from one two d three show ?thesis by blast
qed

end
